theory Spec2Isabelle
  imports Main "HOL-Library.Word"
begin

section \<open>The client side of breakwater-grpc: the outgoing credit gate\<close>

text \<open>
  Source: \<^verbatim>\<open>breakwater/client_interceptor.go\<close>.  The interceptor runs in one goroutine
  per outbound call and shares three buffered channels of the \<^verbatim>\<open>Breakwater\<close> struct
  with every other call on the same instance.  The embedding is a state-passing one:
  a world holds the channels, the clock, the moves that the other goroutines still
  make (the schedule) and the trace of this call's own channel operations.  Every own
  operation is atomic; after each one the next batch of the schedule runs (none when
  the schedule is used up).  A blocking operation that cannot proceed lets batches run
  until it can; when the schedule is used up while it is still blocked, no goroutine
  is left to wake the call: it is parked for good, in the world it has reached.
\<close>

subsection \<open>Values, channels and the struct\<close>

type_synonym int64 = "64 word"

text \<open>A buffered Go channel of \<^verbatim>\<open>int64\<close>: the queued values, oldest first, and \<^verbatim>\<open>cap(ch)\<close>.\<close>

record chan =
  buf :: "int64 list"
  cap :: nat

text \<open>
  The fields of \<^verbatim>\<open>Breakwater\<close> that the client interceptor touches.  The struct and its
  constructor are declared outside this file, so channel capacities and initial
  contents are whatever the world holds.  \<open>id_string\<close> stands for \<^verbatim>\<open>b.id.String()\<close>.
\<close>

record Breakwater =
  id_string :: string
  clientExpiration :: int64
  outgoingCredits :: chan
  noCreditBlocker :: chan
  pendingOutgoing :: chan

datatype chanId = OutgoingCredits | NoCreditBlocker | PendingOutgoing

fun chanOf :: "chanId \<Rightarrow> Breakwater \<Rightarrow> chan" where
  "chanOf OutgoingCredits b = outgoingCredits b"
| "chanOf NoCreditBlocker b = noCreditBlocker b"
| "chanOf PendingOutgoing b = pendingOutgoing b"

fun setChan :: "chanId \<Rightarrow> chan \<Rightarrow> Breakwater \<Rightarrow> Breakwater" where
  "setChan OutgoingCredits c b = b\<lparr>outgoingCredits := c\<rparr>"
| "setChan NoCreditBlocker c b = b\<lparr>noCreditBlocker := c\<rparr>"
| "setChan PendingOutgoing c b = b\<lparr>pendingOutgoing := c\<rparr>"

text \<open>
  The package-level switches \<^verbatim>\<open>useClientQueueLength\<close>, \<^verbatim>\<open>useClientTimeExpiration\<close> and
  \<^verbatim>\<open>creditsOnFail\<close> are declared outside this file; they are parameters here.
\<close>

record flags =
  useClientQueueLength :: bool
  useClientTimeExpiration :: bool
  creditsOnFail :: bool

text \<open>gRPC status errors: \<^verbatim>\<open>codes.Code\<close> is a \<^verbatim>\<open>uint32\<close>, \<^verbatim>\<open>codes.ResourceExhausted\<close> is 8.\<close>

type_synonym code = "32 word"

definition ResourceExhausted :: code where
  "ResourceExhausted = 8"

datatype error = Status code string

text \<open>Outgoing metadata of a context: the key/value pairs in the order they were appended.\<close>

type_synonym ctx = "(string \<times> string) list"

text \<open>\<^verbatim>\<open>metadata.MD\<close>: a missing key reads as the empty slice.\<close>

type_synonym MD = "string \<Rightarrow> string list"

subsection \<open>The other goroutines and the trace\<close>

text \<open>
  What the rest of the program can do to this instance between two operations of the
  call: complete a send on a channel (when there is room), complete a receive (when
  there is a value), and let time pass (\<open>Tick t\<close>: from now on
  \<^verbatim>\<open>time.Since(timeStart).Microseconds()\<close> reads \<open>t\<close>).
\<close>

datatype env = Put chanId int64 | Take chanId | Tick int64

text \<open>The call's own operations, as they complete.\<close>

datatype event =
    Sent chanId int64
  | Received chanId int64
  | TrySent chanId int64 bool
  | TryReceived chanId "int64 option"
  | Len chanId nat
  | Since int64
  | Attached ctx
  | Invoked ctx

text \<open>
  A world: the struct, what \<^verbatim>\<open>time.Since(timeStart).Microseconds()\<close> reads now, the
  schedule (a list of batches, each a list of moves of the other goroutines) and the
  trace of the call so far.
\<close>

record world =
  st :: Breakwater
  clock :: int64
  sched :: "env list list"
  trace :: "event list"

definition chSend :: "int64 \<Rightarrow> chan \<Rightarrow> chan option" where
  "chSend v c = (if length (buf c) < cap c then Some (c\<lparr>buf := buf c @ [v]\<rparr>) else None)"

definition chRecv :: "chan \<Rightarrow> (int64 \<times> chan) option" where
  "chRecv c = (case buf c of [] \<Rightarrow> None | x # xs \<Rightarrow> Some (x, c\<lparr>buf := xs\<rparr>))"

fun applyEnv :: "world \<Rightarrow> env \<Rightarrow> world" where
  "applyEnv w (Put c v) =
     (case chSend v (chanOf c (st w)) of
        None \<Rightarrow> w
      | Some c' \<Rightarrow> w\<lparr>st := setChan c c' (st w)\<rparr>)"
| "applyEnv w (Take c) =
     (case chRecv (chanOf c (st w)) of
        None \<Rightarrow> w
      | Some (_, c') \<Rightarrow> w\<lparr>st := setChan c c' (st w)\<rparr>)"
| "applyEnv w (Tick t) = w\<lparr>clock := t\<rparr>"

text \<open>The next batch of the schedule runs.\<close>

definition interfere :: "world \<Rightarrow> world" where
  "interfere w =
     (case sched w of
        [] \<Rightarrow> w
      | es # rest \<Rightarrow> (foldl applyEnv w es)\<lparr>sched := rest\<rparr>)"

text \<open>An own operation: its effect on the struct, its record in the trace, then a batch.\<close>

definition step :: "event \<Rightarrow> (Breakwater \<Rightarrow> Breakwater) \<Rightarrow> world \<Rightarrow> world" where
  "step e f w = interfere (w\<lparr>st := f (st w), trace := trace w @ [e]\<rparr>)"

lemma sched_applyEnv [simp]: "sched (applyEnv w e) = sched w"
  by (cases e) (auto split: option.splits)

lemma sched_foldl_applyEnv [simp]: "sched (foldl applyEnv w es) = sched w"
  by (induction es arbitrary: w) simp_all

lemma sched_interfere: "sched (interfere w) = tl (sched w)"
  by (simp add: interfere_def split: list.splits)

subsection \<open>Go's channel operations\<close>

text \<open>\<^verbatim>\<open>select { case ch <- v: ... default: ... }\<close>\<close>

definition trySend :: "chanId \<Rightarrow> int64 \<Rightarrow> world \<Rightarrow> bool \<times> world" where
  "trySend c v w =
     (case chSend v (chanOf c (st w)) of
        Some c' \<Rightarrow> (True, step (TrySent c v True) (setChan c c') w)
      | None \<Rightarrow> (False, step (TrySent c v False) (\<lambda>b. b) w))"

text \<open>\<^verbatim>\<open>select { case x := <-ch: ... default: ... }\<close>\<close>

definition tryRecv :: "chanId \<Rightarrow> world \<Rightarrow> int64 option \<times> world" where
  "tryRecv c w =
     (case chRecv (chanOf c (st w)) of
        Some (x, c') \<Rightarrow> (Some x, step (TryReceived c (Some x)) (setChan c c') w)
      | None \<Rightarrow> (None, step (TryReceived c None) (\<lambda>b. b) w))"

text \<open>
  \<^verbatim>\<open><-ch\<close>: blocks while the channel is empty.  \<open>None\<close>: parked for good.
\<close>

function recv :: "chanId \<Rightarrow> world \<Rightarrow> int64 option \<times> world" where
  "recv c w =
     (case chRecv (chanOf c (st w)) of
        Some (x, c') \<Rightarrow> (Some x, step (Received c x) (setChan c c') w)
      | None \<Rightarrow> (if sched w = [] then (None, w) else recv c (interfere w)))"
  by pat_completeness auto
termination
  by (relation "measure (\<lambda>(c, w). length (sched w))") (auto simp: sched_interfere)

text \<open>
  \<^verbatim>\<open>ch <- v\<close>: blocks while the buffer is full.  \<open>False\<close>: parked for good.
\<close>

function send :: "chanId \<Rightarrow> int64 \<Rightarrow> world \<Rightarrow> bool \<times> world" where
  "send c v w =
     (case chSend v (chanOf c (st w)) of
        Some c' \<Rightarrow> (True, step (Sent c v) (setChan c c') w)
      | None \<Rightarrow> (if sched w = [] then (False, w) else send c v (interfere w)))"
  by pat_completeness auto
termination
  by (relation "measure (\<lambda>(c, v, w). length (sched w))") (auto simp: sched_interfere)

declare recv.simps [simp del] send.simps [simp del]

text \<open>\<^verbatim>\<open>len(ch)\<close>\<close>

definition chanLen :: "chanId \<Rightarrow> world \<Rightarrow> nat \<times> world" where
  "chanLen c w =
     (let n = length (buf (chanOf c (st w))) in (n, step (Len c n) (\<lambda>b. b) w))"

text \<open>\<^verbatim>\<open>time.Since(timeStart).Microseconds()\<close>\<close>

definition since :: "world \<Rightarrow> int64 \<times> world" where
  "since w = (clock w, step (Since (clock w)) (\<lambda>b. b) w)"

subsection \<open>Library functions the interceptor calls\<close>

text \<open>
  \<^verbatim>\<open>strconv.Itoa\<close>: the decimal digits of an \<^verbatim>\<open>int\<close>, with a leading minus sign when
  negative.
\<close>

fun digits :: "nat \<Rightarrow> string" where
  "digits n =
     (if n < 10 then [''0123456789'' ! n]
      else digits (n div 10) @ [''0123456789'' ! (n mod 10)])"

declare digits.simps [simp del]

definition Itoa :: "int \<Rightarrow> string" where
  "Itoa i = (if i < 0 then CHR ''-'' # digits (nat (- i)) else digits (nat i))"

text \<open>
  \<^verbatim>\<open>strconv.ParseUint(s, 10, 64)\<close>.  The loop reads one byte at a time into a \<^verbatim>\<open>uint64\<close>
  (arithmetic modulo \<open>2 ^ 64\<close>): a byte that is not a decimal digit ends it with a syntax
  error and the value 0; a value that no longer fits ends it at once, whatever follows,
  with a range error and the largest \<^verbatim>\<open>uint64\<close>.
\<close>

definition digitVal :: "char \<Rightarrow> nat option" where
  "digitVal c = map_of (zip ''0123456789'' [0, 1, 2, 3, 4, 5, 6, 7, 8, 9]) c"

datatype numError = ErrSyntax | ErrRange

definition maxUint64 :: nat where
  "maxUint64 = 2 ^ 64 - 1"

fun parseUintLoop :: "string \<Rightarrow> nat \<Rightarrow> nat \<times> numError option" where
  "parseUintLoop [] n = (n, None)"
| "parseUintLoop (c # cs) n =
     (case digitVal c of
        None \<Rightarrow> (0, Some ErrSyntax)
      | Some d \<Rightarrow>
          if maxUint64 div 10 + 1 \<le> n then (maxUint64, Some ErrRange)
          else
            (let n10 = n * 10 mod 2 ^ 64;
                 n1 = (n10 + d) mod 2 ^ 64
             in if n1 < n10 \<or> maxUint64 < n1 then (maxUint64, Some ErrRange)
                else parseUintLoop cs n1))"

definition ParseUint :: "string \<Rightarrow> nat \<times> numError option" where
  "ParseUint s = (if s = [] then (0, Some ErrSyntax) else parseUintLoop s 0)"

text \<open>
  \<^verbatim>\<open>strconv.ParseInt(s, 10, 64)\<close>, the value only (the interceptor drops the error): an
  optional sign, then \<^verbatim>\<open>ParseUint\<close>; 0 on a syntax error, the nearest \<^verbatim>\<open>int64\<close> when the
  number is out of range.
\<close>

definition ParseInt :: "string \<Rightarrow> int64" where
  "ParseInt s =
     (case s of
        [] \<Rightarrow> 0
      | c # cs \<Rightarrow>
          (let neg = (c = CHR ''-'');
               (un, err) = ParseUint (if c = CHR ''+'' \<or> c = CHR ''-'' then cs else s)
           in if err = Some ErrSyntax then 0
              else if \<not> neg \<and> 2 ^ 63 \<le> un then 2 ^ 63 - 1
              else if neg \<and> 2 ^ 63 < un then - (2 ^ 63)
              else if neg then - word_of_nat un
              else word_of_nat un))"

text \<open>
  The number a string of decimal digits stands for, of any length (\<open>None\<close> when a
  character is not a digit): what a reader of the \<^verbatim>\<open>demand\<close> value gets.
\<close>

fun parseDigits :: "string \<Rightarrow> nat \<Rightarrow> nat option" where
  "parseDigits [] acc = Some acc"
| "parseDigits (c # cs) acc =
     (case digitVal c of None \<Rightarrow> None | Some d \<Rightarrow> parseDigits cs (10 * acc + d))"

text \<open>\<^verbatim>\<open>max\<close> on \<^verbatim>\<open>int64\<close>: the comparison is signed.\<close>

definition max64 :: "int64 \<Rightarrow> int64 \<Rightarrow> int64" where
  "max64 x y = (if x <s y then y else x)"

subsection \<open>The helpers of \<^verbatim>\<open>client_interceptor.go\<close>\<close>

definition getDemand :: "world \<Rightarrow> int \<times> world" where
  "getDemand w = (let (n, w') = chanLen PendingOutgoing w in (int n, w'))"

definition queueRequest :: "world \<Rightarrow> bool \<times> world" where
  "queueRequest w = trySend PendingOutgoing 1 w"

definition dequeueRequest :: "world \<Rightarrow> bool \<times> world" where
  "dequeueRequest w =
     (case tryRecv PendingOutgoing w of
        (Some _, w') \<Rightarrow> (True, w')
      | (None, w') \<Rightarrow> (False, w'))"

definition unblockNoCreditBlock :: "world \<Rightarrow> world" where
  "unblockNoCreditBlock w = snd (trySend NoCreditBlocker 1 w)"

subsection \<open>\<^verbatim>\<open>UnaryInterceptorClient\<close>\<close>

definition queueTooLong :: "Breakwater \<Rightarrow> error" where
  "queueTooLong b =
     Status ResourceExhausted
       (''Client queue too long, request dropped at client '' @ id_string b)"

definition requestExpired :: "Breakwater \<Rightarrow> error" where
  "requestExpired b =
     Status ResourceExhausted (''Client id '' @ id_string b @ '' request expired in queue.'')"

text \<open>
  One pass through the body of the \<^verbatim>\<open>for\<close> loop (lines 76 to 121) ends in one of four
  ways: the loop goes round again, it is left by \<^verbatim>\<open>break\<close>, the interceptor returns an
  error from inside it, or the call is parked for good in a blocking operation.
\<close>

datatype flow = Continue | Break | Return error | Park

text \<open>Lines 88 to 93: the request has waited too long.\<close>

definition dropExpired :: "world \<Rightarrow> flow \<times> world" where
  "dropExpired w =
     (let w1 = unblockNoCreditBlock w;
          (_, w2) = dequeueRequest w1
      in (Return (requestExpired (st w2)), w2))"

text \<open>Lines 99 to 117: take the counter out of its channel, look at it, put it back.\<close>

definition takeCredit :: "world \<Rightarrow> flow \<times> world" where
  "takeCredit w =
     (case recv OutgoingCredits w of
        (None, w1) \<Rightarrow> (Park, w1)
      | (Some creditBalance, w1) \<Rightarrow>
          if 0 <s creditBalance then
            (case send OutgoingCredits (creditBalance - 1) w1 of
               (False, w2) \<Rightarrow> (Park, w2)
             | (True, w2) \<Rightarrow>
                 (Break, if 0 <s creditBalance - 1 then unblockNoCreditBlock w2 else w2))
          else
            (case send OutgoingCredits 0 w1 of
               (False, w2) \<Rightarrow> (Park, w2)
             | (True, w2) \<Rightarrow> (Continue, w2)))"

definition iteration :: "flags \<Rightarrow> world \<Rightarrow> flow \<times> world" where
  "iteration fl w =
     (case recv NoCreditBlocker w of
        (None, w1) \<Rightarrow> (Park, w1)
      | (Some _, w1) \<Rightarrow>
          if useClientTimeExpiration fl then
            (let (timeTaken, w2) = since w1
             in if clientExpiration (st w2) <s timeTaken then dropExpired w2
                else takeCredit w2)
          else takeCredit w1)"

text \<open>
  The loop itself.  It ends: a pass that goes round again has used up a batch of the
  schedule or, when none is left, one value of \<^verbatim>\<open>noCreditBlocker\<close>.
\<close>

lemma sched_step: "sched (step e f w) = tl (sched w)"
  by (simp add: step_def sched_interfere)

lemma recv_sched_le: "recv c w = (r, w') \<Longrightarrow> length (sched w') \<le> length (sched w)"
proof (induction c w arbitrary: r w' rule: recv.induct)
  case (1 c w)
  then show ?case
    by (subst (asm) (2) recv.simps)
      (auto simp: sched_step sched_interfere split: option.splits if_splits)
qed

lemma recv_sched_less:
  assumes "recv c w = (Some x, w')" and "sched w \<noteq> []"
  shows "length (sched w') < length (sched w)"
proof (cases "chRecv (chanOf c (st w))")
  case None
  with assms have "recv c (interfere w) = (Some x, w')"
    by (subst (asm) recv.simps) simp
  from recv_sched_le[OF this] assms(2) show ?thesis
    by (cases "sched w") (simp_all add: sched_interfere)
next
  case (Some p)
  with assms show ?thesis
    by (subst (asm) recv.simps) (cases "sched w"; auto simp: sched_step split: prod.splits)
qed

lemma recv_solo:
  assumes "recv c w = (Some x, w')" and "sched w = []"
  shows "sched w' = [] \<and>
    (\<exists>xs. buf (chanOf c (st w)) = x # xs \<and>
          st w' = setChan c ((chanOf c (st w))\<lparr>buf := xs\<rparr>) (st w))"
  using assms
  by (subst (asm) recv.simps)
    (auto simp: step_def interfere_def chRecv_def split: option.splits list.splits)

lemma send_sched_le: "send c v w = (r, w') \<Longrightarrow> length (sched w') \<le> length (sched w)"
proof (induction c v w arbitrary: r w' rule: send.induct)
  case (1 c v w)
  then show ?case
    by (subst (asm) (2) send.simps)
      (auto simp: sched_step sched_interfere split: option.splits if_splits)
qed

lemma send_solo:
  assumes "send c v w = (True, w')" and "sched w = []"
  shows "sched w' = [] \<and>
    st w' = setChan c ((chanOf c (st w))\<lparr>buf := buf (chanOf c (st w)) @ [v]\<rparr>) (st w)"
  using assms
  by (subst (asm) send.simps)
    (auto simp: step_def interfere_def chSend_def split: option.splits if_splits)

lemma takeCredit_Continue:
  assumes "takeCredit w = (Continue, w')"
  shows "length (sched w') \<le> length (sched w) \<and>
         (sched w = [] \<longrightarrow> noCreditBlocker (st w') = noCreditBlocker (st w))"
proof -
  from assms obtain u w1 where
    r: "recv OutgoingCredits w = (Some u, w1)" and
    s: "send OutgoingCredits 0 w1 = (True, w')"
    by (auto simp: takeCredit_def split: prod.splits option.splits if_splits bool.splits)
  from recv_sched_le[OF r] send_sched_le[OF s]
  have "length (sched w') \<le> length (sched w)" by simp
  moreover have "noCreditBlocker (st w') = noCreditBlocker (st w)" if "sched w = []"
  proof -
    from recv_solo[OF r that]
    have "sched w1 = []" "noCreditBlocker (st w1) = noCreditBlocker (st w)" by auto
    with send_solo[OF s] show ?thesis by auto
  qed
  ultimately show ?thesis by simp
qed

lemma iteration_Continue:
  assumes "iteration fl w = (Continue, w')"
  shows "length (sched w') < length (sched w) \<or>
         (length (sched w') = length (sched w) \<and>
          length (buf (noCreditBlocker (st w'))) < length (buf (noCreditBlocker (st w))))"
proof -
  from assms obtain s w1 w2 where
    r1: "recv NoCreditBlocker w = (Some s, w1)" and
    w2: "w2 = (if useClientTimeExpiration fl then snd (since w1) else w1)" and
    t: "takeCredit w2 = (Continue, w')"
    by (auto simp: iteration_def dropExpired_def Let_def
        split: prod.splits option.splits if_splits)
  note c = takeCredit_Continue[OF t]
  have le: "length (sched w2) \<le> length (sched w1)"
    using w2 by (auto simp: since_def sched_step)
  show ?thesis
  proof (cases "sched w = []")
    case False
    from recv_sched_less[OF r1 False] le c show ?thesis by linarith
  next
    case True
    from recv_solo[OF r1 True] obtain xs where
      a: "sched w1 = []" "buf (noCreditBlocker (st w)) = s # xs"
         "st w1 = (st w)\<lparr>noCreditBlocker := (noCreditBlocker (st w))\<lparr>buf := xs\<rparr>\<rparr>"
      by auto
    have b: "sched w2 = [] \<and> st w2 = st w1"
      using w2 a(1) by (auto simp: since_def step_def interfere_def)
    with c have "sched w' = []" "noCreditBlocker (st w') = noCreditBlocker (st w1)"
      by auto
    with a True show ?thesis by simp
  qed
qed

function waitForCredit :: "flags \<Rightarrow> world \<Rightarrow> flow \<times> world" where
  "waitForCredit fl w =
     (case iteration fl w of
        (Continue, w') \<Rightarrow> waitForCredit fl w'
      | (Break, w') \<Rightarrow> (Break, w')
      | (Return e, w') \<Rightarrow> (Return e, w')
      | (Park, w') \<Rightarrow> (Park, w'))"
  by pat_completeness auto
termination
proof (relation "inv_image (less_than <*lex*> less_than)
    (\<lambda>(fl, w). (length (sched w), length (buf (noCreditBlocker (st w)))))")
  show "wf (inv_image (less_than <*lex*> less_than)
      (\<lambda>(fl, w). (length (sched w), length (buf (noCreditBlocker (st w))))))"
    by (intro wf_inv_image wf_lex_prod wf_less_than)
next
  fix fl w x y
  assume "(x, y) = iteration fl w" "x = Continue"
  then have "iteration fl w = (Continue, y)" by simp
  from iteration_Continue[OF this]
  show "((fl, y), fl, w) \<in> inv_image (less_than <*lex*> less_than)
      (\<lambda>(fl, w). (length (sched w), length (buf (noCreditBlocker (st w)))))"
    by auto
qed

declare waitForCredit.simps [simp del]

text \<open>
  Lines 123 to 134.  \<^verbatim>\<open>metadata.AppendToOutgoingContext\<close> adds the pairs to the outgoing
  metadata; the transport call \<^verbatim>\<open>invoker(ctx, method, req, reply, cc, grpc.Header(&header))\<close>
  yields the error (if any) and the response header.
\<close>

definition appendToOutgoingContext :: "ctx \<Rightarrow> ctx \<Rightarrow> world \<Rightarrow> ctx \<times> world" where
  "appendToOutgoingContext c kv w = (c @ kv, step (Attached (c @ kv)) (\<lambda>b. b) w)"

definition invoke :: "(ctx \<Rightarrow> error option \<times> MD) \<Rightarrow> ctx \<Rightarrow> world \<Rightarrow> (error option \<times> MD) \<times> world" where
  "invoke invoker c w = (invoker c, step (Invoked c) (\<lambda>b. b) w)"

text \<open>How a call ends: it returns (an error or \<^verbatim>\<open>nil\<close>), or it is parked for good.\<close>

datatype ret = Returned "error option" | Parked

text \<open>Lines 135 to 165: what happens to the credit counter once the transport call is back.\<close>

definition afterInvoke :: "flags \<Rightarrow> error option \<times> MD \<Rightarrow> world \<Rightarrow> ret \<times> world" where
  "afterInvoke fl r w =
     (case fst r of
        Some err \<Rightarrow>
          if creditsOnFail fl then
            (case tryRecv OutgoingCredits w of
               (Some credit, w1) \<Rightarrow>
                 (case send OutgoingCredits (credit + 1) w1 of
                    (False, w2) \<Rightarrow> (Parked, w2)
                  | (True, w2) \<Rightarrow> (Returned (Some err), unblockNoCreditBlock w2))
             | (None, w1) \<Rightarrow> (Returned (Some err), unblockNoCreditBlock w1))
          else (Returned (Some err), w)
      | None \<Rightarrow>
          (case snd r ''credits'' of
             c # _ \<Rightarrow>
               (let cXNew = ParseInt c in
                case recv OutgoingCredits w of
                  (None, w1) \<Rightarrow> (Parked, w1)
                | (Some _, w1) \<Rightarrow>
                    (case send OutgoingCredits (max64 cXNew 1) w1 of
                       (False, w2) \<Rightarrow> (Parked, w2)
                     | (True, w2) \<Rightarrow> (Returned None, unblockNoCreditBlock w2)))
           | [] \<Rightarrow>
               (case recv OutgoingCredits w of
                  (None, w1) \<Rightarrow> (Parked, w1)
                | (Some oc, w1) \<Rightarrow>
                    (case send OutgoingCredits (max64 oc 1) w1 of
                       (False, w2) \<Rightarrow> (Parked, w2)
                     | (True, w2) \<Rightarrow> (Returned None, unblockNoCreditBlock w2)))))"

definition sendRequest :: "flags \<Rightarrow> (ctx \<Rightarrow> error option \<times> MD) \<Rightarrow> ctx \<Rightarrow> world \<Rightarrow> ret \<times> world" where
  "sendRequest fl invoker c w =
     (let (demand, w1) = getDemand w;
          (c', w2) = appendToOutgoingContext c
                       [(''demand'', Itoa demand), (''id'', id_string (st w1))] w1;
          (_, w3) = dequeueRequest w2;
          (r, w4) = invoke invoker c' w3
      in afterInvoke fl r w4)"

text \<open>
  The whole interceptor.  The logging calls are left out: they touch nothing the
  embedding holds.  The loop ends by \<^verbatim>\<open>break\<close>, by a return or parked, never with a pass
  that asks for another one, so the last case below is the parked one.
\<close>

definition UnaryInterceptorClient :: "flags \<Rightarrow> (ctx \<Rightarrow> error option \<times> MD) \<Rightarrow> ctx \<Rightarrow> world \<Rightarrow> ret \<times> world" where
  "UnaryInterceptorClient fl invoker c w =
     (let (added, w0) = queueRequest w in
      if useClientQueueLength fl \<and> \<not> added then (Returned (Some (queueTooLong (st w0))), w0)
      else
        (case waitForCredit fl w0 of
           (Break, w1) \<Rightarrow> sendRequest fl invoker c w1
         | (Return e, w1) \<Rightarrow> (Returned (Some e), w1)
         | (_, w1) \<Rightarrow> (Parked, w1)))"

section \<open>The shape of a call's trace\<close>

text \<open>
  The predicates below name the pieces a trace is made of.  A wake-up is the signal
  taken from \<^verbatim>\<open>noCreditBlocker\<close>, with the clock reading when expiry is checked (and
  the request has not expired).  An empty round is a wake-up that found no credit and
  wrote 0 back; an admission is a wake-up that read a balance \<open>v > 0\<close> and wrote
  \<open>v - 1\<close> back, waking the next waiter when credit is left; an expiry is a wake-up
  that came too late.  A settlement is what follows the transport call.
\<close>

definition wakeup :: "flags \<Rightarrow> int64 \<Rightarrow> event list \<Rightarrow> bool" where
  "wakeup fl exp tr \<longleftrightarrow>
     (if useClientTimeExpiration fl
      then \<exists>s t. tr = [Received NoCreditBlocker s, Since t] \<and> \<not> exp <s t
      else \<exists>s. tr = [Received NoCreditBlocker s])"

definition emptyRound :: "flags \<Rightarrow> int64 \<Rightarrow> event list \<Rightarrow> bool" where
  "emptyRound fl exp tr \<longleftrightarrow>
     (\<exists>wk u. wakeup fl exp wk \<and> \<not> 0 <s u \<and>
        tr = wk @ [Received OutgoingCredits u, Sent OutgoingCredits 0])"

definition admission :: "flags \<Rightarrow> int64 \<Rightarrow> int64 \<Rightarrow> event list \<Rightarrow> bool" where
  "admission fl exp v tr \<longleftrightarrow>
     (\<exists>wk. wakeup fl exp wk \<and> 0 <s v \<and>
        (if 0 <s v - 1
         then \<exists>ok. tr = wk @ [Received OutgoingCredits v, Sent OutgoingCredits (v - 1),
                              TrySent NoCreditBlocker 1 ok]
         else tr = wk @ [Received OutgoingCredits v, Sent OutgoingCredits (v - 1)]))"

definition expiry :: "flags \<Rightarrow> int64 \<Rightarrow> event list \<Rightarrow> bool" where
  "expiry fl exp tr \<longleftrightarrow>
     useClientTimeExpiration fl \<and>
     (\<exists>s t ok x. exp <s t \<and>
        tr = [Received NoCreditBlocker s, Since t, TrySent NoCreditBlocker 1 ok,
              TryReceived PendingOutgoing x])"

definition parkedPass :: "flags \<Rightarrow> int64 \<Rightarrow> event list \<Rightarrow> bool" where
  "parkedPass fl exp tr \<longleftrightarrow>
     tr = [] \<or> wakeup fl exp tr \<or> (\<exists>wk u. wakeup fl exp wk \<and> tr = wk @ [Received OutgoingCredits u])"

definition pass :: "flags \<Rightarrow> Breakwater \<Rightarrow> flow \<Rightarrow> event list \<Rightarrow> bool" where
  "pass fl b f tr =
     (case f of
        Continue \<Rightarrow> emptyRound fl (clientExpiration b) tr
      | Break \<Rightarrow> (\<exists>v. admission fl (clientExpiration b) v tr)
      | Return e \<Rightarrow> e = requestExpired b \<and> expiry fl (clientExpiration b) tr
      | Park \<Rightarrow> parkedPass fl (clientExpiration b) tr)"

definition settlement :: "flags \<Rightarrow> error option \<times> MD \<Rightarrow> ret \<Rightarrow> event list \<Rightarrow> bool" where
  "settlement fl rp r tr \<longleftrightarrow>
     (case fst rp of
        Some err \<Rightarrow>
          if creditsOnFail fl then
            (\<exists>ok. tr = [TryReceived OutgoingCredits None, TrySent NoCreditBlocker 1 ok] \<and>
                  r = Returned (Some err)) \<or>
            (\<exists>cr. tr = [TryReceived OutgoingCredits (Some cr)] \<and> r = Parked) \<or>
            (\<exists>cr ok. tr = [TryReceived OutgoingCredits (Some cr), Sent OutgoingCredits (cr + 1),
                            TrySent NoCreditBlocker 1 ok] \<and>
                     r = Returned (Some err))
          else tr = [] \<and> r = Returned (Some err)
      | None \<Rightarrow>
          (tr = [] \<and> r = Parked) \<or>
          (\<exists>u. tr = [Received OutgoingCredits u] \<and> r = Parked) \<or>
          (\<exists>u ok. tr = [Received OutgoingCredits u,
                         Sent OutgoingCredits
                           (max64 (case snd rp ''credits'' of [] \<Rightarrow> u | c # _ \<Rightarrow> ParseInt c) 1),
                         TrySent NoCreditBlocker 1 ok] \<and>
                  r = Returned None))"

section \<open>Invariants\<close>

text \<open>\<open>cfg\<close>: the fields nothing writes to after construction.\<close>

definition cfg :: "Breakwater \<Rightarrow> string \<times> int64" where
  "cfg b = (id_string b, clientExpiration b)"

text \<open>
  The counter is non-negative: every value held in \<^verbatim>\<open>outgoingCredits\<close> is, and so is every
  value another goroutine is still going to put there.
\<close>

definition nonneg :: "world \<Rightarrow> bool" where
  "nonneg w \<longleftrightarrow>
     (\<forall>x \<in> set (buf (outgoingCredits (st w))). 0 \<le>s x) \<and>
     (\<forall>b \<in> set (sched w). \<forall>v. Put OutgoingCredits v \<in> set b \<longrightarrow> 0 \<le>s v)"

definition held :: "world \<Rightarrow> bool" where
  "held w \<longleftrightarrow> (\<forall>x \<in> set (buf (outgoingCredits (st w))). 0 \<le>s x)"

text \<open>The capacities of the three channels: no operation changes them.\<close>

definition caps :: "Breakwater \<Rightarrow> nat \<times> nat \<times> nat" where
  "caps b = (cap (outgoingCredits b), cap (noCreditBlocker b), cap (pendingOutgoing b))"

text \<open>
  What the other goroutines do to \<^verbatim>\<open>pendingOutgoing\<close> while a call waits.  A move is on
  the queue when it sends to or receives from \<^verbatim>\<open>pendingOutgoing\<close>; the queue is untouched
  when no move of the schedule is on it.
\<close>

fun onQueue :: "env \<Rightarrow> bool" where
  "onQueue (Put c v) = (c = PendingOutgoing)"
| "onQueue (Take c) = (c = PendingOutgoing)"
| "onQueue (Tick t) = False"

definition queueUntouched :: "world \<Rightarrow> bool" where
  "queueUntouched w \<longleftrightarrow> list_all (list_all (\<lambda>e. \<not> onQueue e)) (sched w)"

text \<open>
  The entries of \<^verbatim>\<open>pendingOutgoing\<close> are indistinguishable tokens (each is the number 1):
  the queue counts the requests between their enqueue and their dequeue.
  \<open>keepsEntry n k es\<close>: played on a queue of capacity \<open>k\<close> that holds \<open>n\<close> entries, the
  moves \<open>es\<close> never take the last entry out.  \<open>entryStays w\<close>: once the call's own entry
  is in the queue of \<open>w\<close>, the other goroutines never take the last entry out, that is,
  they take out no more than the entries of the other requests.  \<open>entryKept w\<close>: the
  same for the queue as it stands, which holds an entry.
\<close>

fun keepsEntry :: "nat \<Rightarrow> nat \<Rightarrow> env list \<Rightarrow> bool" where
  "keepsEntry n k [] = True"
| "keepsEntry n k (Put c v # es) =
     keepsEntry (if c = PendingOutgoing \<and> n < k then Suc n else n) k es"
| "keepsEntry n k (Take c # es) =
     (if c = PendingOutgoing then 1 < n \<and> keepsEntry (n - 1) k es else keepsEntry n k es)"
| "keepsEntry n k (Tick t # es) = keepsEntry n k es"

definition entryStays :: "world \<Rightarrow> bool" where
  "entryStays w \<longleftrightarrow>
     keepsEntry (Suc (length (buf (pendingOutgoing (st w))))) (cap (pendingOutgoing (st w)))
       (concat (sched w))"

definition entryKept :: "world \<Rightarrow> bool" where
  "entryKept w \<longleftrightarrow>
     buf (pendingOutgoing (st w)) \<noteq> [] \<and>
     keepsEntry (length (buf (pendingOutgoing (st w)))) (cap (pendingOutgoing (st w)))
       (concat (sched w))"

text \<open>
  A property of worlds is framed when a batch of the other goroutines preserves it and
  it does not depend on the trace nor on the struct beyond \<^verbatim>\<open>pendingOutgoing\<close> and the
  capacities.  \<open>queueLeft w w'\<close>: every framed property of \<open>w\<close> holds of \<open>w'\<close>; this is
  how \<open>w'\<close> relates to \<open>w\<close> when the call, in between, has left \<^verbatim>\<open>pendingOutgoing\<close> to the
  other goroutines.
\<close>

definition framed :: "(world \<Rightarrow> bool) \<Rightarrow> bool" where
  "framed I \<longleftrightarrow>
     (\<forall>w. I w \<longrightarrow> I (interfere w)) \<and>
     (\<forall>w b t. I w \<longrightarrow> pendingOutgoing b = pendingOutgoing (st w) \<longrightarrow> caps b = caps (st w) \<longrightarrow>
        I (w\<lparr>st := b, trace := t\<rparr>))"

definition queueLeft :: "world \<Rightarrow> world \<Rightarrow> bool" where
  "queueLeft w w' \<longleftrightarrow> (\<forall>I. framed I \<longrightarrow> I w \<longrightarrow> I w')"

section \<open>Example worlds\<close>

text \<open>
  A client \<^verbatim>\<open>c1\<close> with an expiration of 1000 microseconds and the given channels, a world
  around it, switch settings, and transports: one whose response grants credits, one
  that fails.
\<close>

definition client :: "chan \<Rightarrow> chan \<Rightarrow> chan \<Rightarrow> Breakwater" where
  "client oc ncb po =
     \<lparr>id_string = ''c1'', clientExpiration = 1000,
      outgoingCredits = oc, noCreditBlocker = ncb, pendingOutgoing = po\<rparr>"

definition waiting :: "int64 list \<Rightarrow> int64 list \<Rightarrow> int64 \<Rightarrow> env list list \<Rightarrow> world" where
  "waiting credits queue t sch =
     \<lparr>st = client \<lparr>buf = credits, cap = 1\<rparr> \<lparr>buf = [1], cap = 1\<rparr> \<lparr>buf = queue, cap = 2\<rparr>,
      clock = t, sched = sch, trace = []\<rparr>"

text \<open>
  No credit at first; after the first round another call's reply grants 3 credits and
  signals.
\<close>

definition starved :: world where
  "starved =
     waiting [0] [] 0
       [[], [], [], [], [Take OutgoingCredits, Put OutgoingCredits 3, Put NoCreditBlocker 1]]"

text \<open>No credit at first; the next signal comes after 1500 microseconds.\<close>

definition woken_late :: world where
  "woken_late = waiting [0] [] 0 [[], [], [], [], [Tick 1500, Put NoCreditBlocker 1]]"

text \<open>
  One other request is pending at entry and is sent (its entry leaves the queue) while
  the call waits.  There is no credit at first; the next signal comes after 1500
  microseconds.
\<close>

definition overtaken_late :: world where
  "overtaken_late =
     waiting [0] [1] 0 [[Take PendingOutgoing], [], [], [], [Tick 1500, Put NoCreditBlocker 1]]"

text \<open>The same, but the next signal comes with a grant of 3 credits.\<close>

definition overtaken_granted :: world where
  "overtaken_granted =
     waiting [0] [1] 0
       [[Take PendingOutgoing], [], [], [],
        [Take OutgoingCredits, Put OutgoingCredits 3, Put NoCreditBlocker 1]]"

text \<open>
  One other request is pending and stays so; no credit at first, then a grant of 3
  credits and a signal.
\<close>

definition granted_late :: world where
  "granted_late =
     waiting [0] [1] 0
       [[], [], [], [], [Take OutgoingCredits, Put OutgoingCredits 3, Put NoCreditBlocker 1]]"

text \<open>
  One credit; while the transport call is out, another call's reply installs a grant of
  9223372036854775807 credits.
\<close>

definition overflowing :: world where
  "overflowing =
     waiting [1] [] 0
       [[], [], [], [], [], [], [], [],
        [Take OutgoingCredits, Put OutgoingCredits 9223372036854775807]]"

definition all_on :: flags where
  "all_on = \<lparr>useClientQueueLength = True, useClientTimeExpiration = True, creditsOnFail = True\<rparr>"

definition no_queue_limit :: flags where
  "no_queue_limit =
     \<lparr>useClientQueueLength = False, useClientTimeExpiration = True, creditsOnFail = True\<rparr>"

definition grants :: "string \<Rightarrow> ctx \<Rightarrow> error option \<times> MD" where
  "grants n c = (None, \<lambda>k. if k = ''credits'' then [n] else [])"

definition fails :: "ctx \<Rightarrow> error option \<times> MD" where
  "fails c = (Some (Status 14 ''unavailable''), \<lambda>k. [])"

section \<open>What each operation adds to the trace\<close>

lemma cfg_setChan [simp]: "cfg (setChan c ch b) = cfg b"
  by (cases c) (simp_all add: cfg_def)

lemma applyEnv_keeps [simp]: "trace (applyEnv w e) = trace w" "cfg (st (applyEnv w e)) = cfg (st w)"
  by (cases e; auto split: option.splits)+

lemma foldl_applyEnv_keeps [simp]:
  "trace (foldl applyEnv w es) = trace w" "cfg (st (foldl applyEnv w es)) = cfg (st w)"
  by (induction es arbitrary: w) simp_all

lemma interfere_keeps [simp]: "trace (interfere w) = trace w" "cfg (st (interfere w)) = cfg (st w)"
  by (simp_all add: interfere_def split: list.splits)

lemma trace_step [simp]: "trace (step e f w) = trace w @ [e]"
  by (simp add: step_def)

lemma cfg_step [simp]: "cfg (f (st w)) = cfg (st w) \<Longrightarrow> cfg (st (step e f w)) = cfg (st w)"
  by (simp add: step_def)

lemma recv_effect:
  "recv c w = (r, w') \<Longrightarrow>
   cfg (st w') = cfg (st w) \<and> trace w' = trace w @ (case r of None \<Rightarrow> [] | Some x \<Rightarrow> [Received c x])"
proof (induction c w arbitrary: r w' rule: recv.induct)
  case (1 c w)
  then show ?case
    by (subst (asm) (2) recv.simps) (auto split: option.splits if_splits)
qed

lemma send_effect:
  "send c v w = (ok, w') \<Longrightarrow>
   cfg (st w') = cfg (st w) \<and> trace w' = trace w @ (if ok then [Sent c v] else [])"
proof (induction c v w arbitrary: ok w' rule: send.induct)
  case (1 c v w)
  then show ?case
    by (subst (asm) (2) send.simps) (auto split: option.splits if_splits)
qed

lemma trySend_effect:
  "trySend c v w = (ok, w') \<Longrightarrow> cfg (st w') = cfg (st w) \<and> trace w' = trace w @ [TrySent c v ok]"
  by (auto simp: trySend_def split: option.splits)

lemma tryRecv_effect:
  "tryRecv c w = (x, w') \<Longrightarrow> cfg (st w') = cfg (st w) \<and> trace w' = trace w @ [TryReceived c x]"
  by (auto simp: tryRecv_def split: option.splits)

lemma since_effect:
  "since w = (t, w') \<Longrightarrow> cfg (st w') = cfg (st w) \<and> trace w' = trace w @ [Since t]"
  by (auto simp: since_def)

lemma unblock_effect:
  "unblockNoCreditBlock w = w' \<Longrightarrow>
   cfg (st w') = cfg (st w) \<and> (\<exists>ok. trace w' = trace w @ [TrySent NoCreditBlocker 1 ok])"
  using trySend_effect[of NoCreditBlocker 1 w]
  by (cases "trySend NoCreditBlocker 1 w") (auto simp: unblockNoCreditBlock_def)

lemma dequeue_effect:
  "dequeueRequest w = (ok, w') \<Longrightarrow>
   cfg (st w') = cfg (st w) \<and> (\<exists>x. trace w' = trace w @ [TryReceived PendingOutgoing x])"
  using tryRecv_effect[of PendingOutgoing w]
  by (cases "tryRecv PendingOutgoing w") (auto simp: dequeueRequest_def split: option.splits)

lemma cfgD: "cfg b' = cfg b \<Longrightarrow> id_string b' = id_string b \<and> clientExpiration b' = clientExpiration b"
  by (simp add: cfg_def)

lemma requestExpired_cfg: "cfg b' = cfg b \<Longrightarrow> requestExpired b' = requestExpired b"
  by (simp add: cfg_def requestExpired_def)

lemma dropExpired_effect:
  assumes "dropExpired w = (f, w')"
  shows "cfg (st w') = cfg (st w) \<and> f = Return (requestExpired (st w)) \<and>
    (\<exists>ok x. trace w' = trace w @ [TrySent NoCreditBlocker 1 ok, TryReceived PendingOutgoing x])"
proof -
  obtain ok w2 where d: "dequeueRequest (unblockNoCreditBlock w) = (ok, w2)"
    by (cases "dequeueRequest (unblockNoCreditBlock w)")
  from assms d have f: "f = Return (requestExpired (st w2))" and w': "w' = w2"
    by (auto simp: dropExpired_def)
  from unblock_effect[OF refl, of w] dequeue_effect[OF d]
  have "cfg (st w2) = cfg (st w)"
    and "\<exists>ok x. trace w2 = trace w @ [TrySent NoCreditBlocker 1 ok, TryReceived PendingOutgoing x]"
    by auto
  with f w' requestExpired_cfg[of "st w2" "st w"] show ?thesis by simp
qed

lemma takeCredit_effect:
  assumes "takeCredit w = (f, w')"
  shows "cfg (st w') = cfg (st w) \<and>
    (\<exists>new. trace w' = trace w @ new \<and>
      (case f of
         Park \<Rightarrow> new = [] \<or> (\<exists>u. new = [Received OutgoingCredits u])
       | Continue \<Rightarrow> (\<exists>u. \<not> 0 <s u \<and> new = [Received OutgoingCredits u, Sent OutgoingCredits 0])
       | Break \<Rightarrow> (\<exists>v. 0 <s v \<and>
            (if 0 <s v - 1
             then \<exists>ok. new = [Received OutgoingCredits v, Sent OutgoingCredits (v - 1),
                               TrySent NoCreditBlocker 1 ok]
             else new = [Received OutgoingCredits v, Sent OutgoingCredits (v - 1)]))
       | Return e \<Rightarrow> False))"
proof -
  obtain r1 w1 where r1: "recv OutgoingCredits w = (r1, w1)" by (cases "recv OutgoingCredits w")
  note e1 = recv_effect[OF r1]
  show ?thesis
  proof (cases r1)
    case None
    with assms r1 e1 show ?thesis by (simp add: takeCredit_def)
  next
    case (Some u)
    obtain ok w2 where s2: "send OutgoingCredits (if 0 <s u then u - 1 else 0) w1 = (ok, w2)"
      by (cases "send OutgoingCredits (if 0 <s u then u - 1 else 0) w1")
    note e2 = send_effect[OF s2]
    show ?thesis
    proof (cases ok)
      case False
      with assms r1 Some s2 e1 e2 show ?thesis
        by (auto simp: takeCredit_def split: if_splits)
    next
      case True
      show ?thesis
      proof (cases "0 <s u")
        case False
        with True assms r1 Some s2 e1 e2 show ?thesis
          by (auto simp: takeCredit_def)
      next
        case pos: True
        show ?thesis
        proof (cases "0 <s u - 1")
          case False
          with pos True assms r1 Some s2 e1 e2 show ?thesis
            by (auto simp: takeCredit_def)
        next
          case more: True
          from unblock_effect[OF refl, of w2] obtain ok' where
            "cfg (st (unblockNoCreditBlock w2)) = cfg (st w2)"
            "trace (unblockNoCreditBlock w2) = trace w2 @ [TrySent NoCreditBlocker 1 ok']"
            by auto
          with more pos True assms r1 Some s2 e1 e2 show ?thesis
            by (auto simp: takeCredit_def)
        qed
      qed
    qed
  qed
qed

lemma iteration_effect:
  assumes "iteration fl w = (f, w')"
  shows "cfg (st w') = cfg (st w) \<and> (\<exists>new. trace w' = trace w @ new \<and> pass fl (st w) f new)"
proof -
  obtain r1 w1 where r1: "recv NoCreditBlocker w = (r1, w1)" by (cases "recv NoCreditBlocker w")
  note e1 = recv_effect[OF r1]
  show ?thesis
  proof (cases r1)
    case None
    with assms r1 e1 show ?thesis
      by (auto simp: iteration_def pass_def parkedPass_def)
  next
    case (Some s)
    with e1 have c1: "cfg (st w1) = cfg (st w)" and t1: "trace w1 = trace w @ [Received NoCreditBlocker s]"
      by simp_all
    show ?thesis
    proof (cases "useClientTimeExpiration fl")
      case False
      with assms r1 Some have t: "takeCredit w1 = (f, w')"
        by (simp add: iteration_def)
      have wk: "wakeup fl (clientExpiration (st w)) [Received NoCreditBlocker s]"
        using False by (simp add: wakeup_def)
      from takeCredit_effect[OF t] c1 t1 wk show ?thesis
        by (cases f) (auto simp: pass_def parkedPass_def emptyRound_def admission_def split: if_splits)
    next
      case True
      obtain t w2 where s2: "since w1 = (t, w2)" by (cases "since w1")
      from since_effect[OF s2] c1 t1
      have c2: "cfg (st w2) = cfg (st w)"
        and t2: "trace w2 = trace w @ [Received NoCreditBlocker s, Since t]"
        by simp_all
      from c2 have x: "clientExpiration (st w2) = clientExpiration (st w)"
        by (simp add: cfg_def)
      show ?thesis
      proof (cases "clientExpiration (st w) <s t")
        case late: True
        with assms r1 Some True s2 x have d: "dropExpired w2 = (f, w')"
          by (simp add: iteration_def)
        from dropExpired_effect[OF d] c2 t2 late True requestExpired_cfg[OF c2]
        show ?thesis
          by (auto simp: pass_def expiry_def)
      next
        case False
        with assms r1 Some True s2 x have t: "takeCredit w2 = (f, w')"
          by (simp add: iteration_def)
        have wk: "wakeup fl (clientExpiration (st w)) [Received NoCreditBlocker s, Since t]"
          using False True by (simp add: wakeup_def)
        from takeCredit_effect[OF t] c2 t2 wk show ?thesis
          by (cases f) (auto simp: pass_def parkedPass_def emptyRound_def admission_def split: if_splits)
      qed
    qed
  qed
qed

lemma pass_cfg: "cfg b' = cfg b \<Longrightarrow> pass fl b' f tr = pass fl b f tr"
  by (cases f) (auto simp: pass_def cfg_def requestExpired_def)

lemma waitForCredit_effect:
  "waitForCredit fl w = (f, w') \<Longrightarrow>
   cfg (st w') = cfg (st w) \<and> f \<noteq> Continue \<and>
   (\<exists>rounds last. trace w' = trace w @ concat rounds @ last \<and>
      (\<forall>rd \<in> set rounds. emptyRound fl (clientExpiration (st w)) rd) \<and>
      pass fl (st w) f last)"
proof (induction fl w arbitrary: f w' rule: waitForCredit.induct)
  case (1 fl w)
  obtain g w1 where it: "iteration fl w = (g, w1)" by (cases "iteration fl w")
  from iteration_effect[OF it] obtain new where
    c1: "cfg (st w1) = cfg (st w)" and t1: "trace w1 = trace w @ new" and p1: "pass fl (st w) g new"
    by auto
  show ?case
  proof (cases "g = Continue")
    case False
    with "1.prems" it have "f = g" "w' = w1"
      by (subst (asm) waitForCredit.simps; cases g; simp)+
    with False c1 t1 p1 show ?thesis
      by (intro conjI exI[of _ "[]"] exI[of _ new]) simp_all
  next
    case True
    with "1.prems" it have "waitForCredit fl w1 = (f, w')"
      by (subst (asm) waitForCredit.simps) simp
    from "1.IH"[OF it[symmetric] True this] obtain rounds last where
      ih: "cfg (st w') = cfg (st w1)" "f \<noteq> Continue"
          "trace w' = trace w1 @ concat rounds @ last"
          "\<forall>rd \<in> set rounds. emptyRound fl (clientExpiration (st w1)) rd"
          "pass fl (st w1) f last"
      by auto
    from c1 have x: "clientExpiration (st w1) = clientExpiration (st w)" by (simp add: cfg_def)
    from p1 True have "emptyRound fl (clientExpiration (st w)) new" by (simp add: pass_def)
    with ih c1 t1 x pass_cfg[OF c1] show ?thesis
      by (intro conjI exI[of _ "new # rounds"] exI[of _ last]) simp_all
  qed
qed

lemma unblock_trace:
  obtains ok where "cfg (st (unblockNoCreditBlock w)) = cfg (st w)"
    "trace (unblockNoCreditBlock w) = trace w @ [TrySent NoCreditBlocker 1 ok]"
  using unblock_effect[OF refl, of w] by auto

lemma afterInvoke_fail:
  assumes "afterInvoke fl (Some err, h) w = (r, w')"
  shows "cfg (st w') = cfg (st w) \<and>
         (\<exists>new. trace w' = trace w @ new \<and> settlement fl (Some err, h) r new)"
proof (cases "creditsOnFail fl")
  case False
  with assms show ?thesis by (simp add: afterInvoke_def settlement_def)
next
  case True
  obtain x w1 where t: "tryRecv OutgoingCredits w = (x, w1)" by (cases "tryRecv OutgoingCredits w")
  note e1 = tryRecv_effect[OF t]
  show ?thesis
  proof (cases x)
    case None
    obtain ok where "cfg (st (unblockNoCreditBlock w1)) = cfg (st w1)"
      "trace (unblockNoCreditBlock w1) = trace w1 @ [TrySent NoCreditBlocker 1 ok]"
      by (rule unblock_trace)
    with None True assms t e1 show ?thesis
      by (auto simp: afterInvoke_def settlement_def)
  next
    case (Some cr)
    obtain ok w2 where s: "send OutgoingCredits (cr + 1) w1 = (ok, w2)"
      by (cases "send OutgoingCredits (cr + 1) w1")
    note e2 = send_effect[OF s]
    obtain ok' where u: "cfg (st (unblockNoCreditBlock w2)) = cfg (st w2)"
      "trace (unblockNoCreditBlock w2) = trace w2 @ [TrySent NoCreditBlocker 1 ok']"
      by (rule unblock_trace)
    show ?thesis
    proof (cases ok)
      case False
      with Some True assms t s e1 e2 show ?thesis
        by (auto simp: afterInvoke_def settlement_def)
    next
      case ok: True
      with Some True assms t s e1 e2 u show ?thesis
        by (auto simp: afterInvoke_def settlement_def)
    qed
  qed
qed

lemma afterInvoke_ok:
  assumes "afterInvoke fl (None, h) w = (r, w')"
  shows "cfg (st w') = cfg (st w) \<and>
         (\<exists>new. trace w' = trace w @ new \<and> settlement fl (None, h) r new)"
proof -
  obtain x w1 where t: "recv OutgoingCredits w = (x, w1)" by (cases "recv OutgoingCredits w")
  note e1 = recv_effect[OF t]
  show ?thesis
  proof (cases x)
    case None
    with assms t e1 show ?thesis
      by (cases "h ''credits''") (auto simp: afterInvoke_def settlement_def)
  next
    case (Some u)
    define n where "n = max64 (case h ''credits'' of [] \<Rightarrow> u | c # _ \<Rightarrow> ParseInt c) 1"
    obtain ok w2 where s: "send OutgoingCredits n w1 = (ok, w2)"
      by (cases "send OutgoingCredits n w1")
    note e2 = send_effect[OF s]
    obtain ok' where u: "cfg (st (unblockNoCreditBlock w2)) = cfg (st w2)"
      "trace (unblockNoCreditBlock w2) = trace w2 @ [TrySent NoCreditBlocker 1 ok']"
      by (rule unblock_trace)
    have a: "afterInvoke fl (None, h) w =
        (case send OutgoingCredits n w1 of
           (False, w2) \<Rightarrow> (Parked, w2)
         | (True, w2) \<Rightarrow> (Returned None, unblockNoCreditBlock w2))"
      using t Some by (cases "h ''credits''") (simp_all add: afterInvoke_def n_def)
    show ?thesis
    proof (cases ok)
      case False
      with a Some assms s e1 e2 show ?thesis
        by (auto simp: settlement_def)
    next
      case ok: True
      with a Some assms s e1 e2 u show ?thesis
        by (auto simp: settlement_def n_def)
    qed
  qed
qed

lemma afterInvoke_effect:
  assumes "afterInvoke fl rp w = (r, w')"
  shows "cfg (st w') = cfg (st w) \<and>
         (\<exists>new. trace w' = trace w @ new \<and> settlement fl rp r new)"
proof (cases rp)
  case (Pair e h)
  with assms afterInvoke_fail afterInvoke_ok show ?thesis
    by (cases e) blast+
qed

section \<open>Decimal strings\<close>

text \<open>What \<^verbatim>\<open>Itoa\<close> writes for a length reads back as that length.\<close>

lemma digitVal_digit: "k < 10 \<Longrightarrow> digitVal (''0123456789'' ! k) = Some k"
proof -
  assume "k < 10"
  then consider "k = 0" | "k = 1" | "k = 2" | "k = 3" | "k = 4" | "k = 5" | "k = 6" | "k = 7" | "k = 8" | "k = 9"
    by atomize_elim arith
  then show ?thesis by cases (simp_all add: digitVal_def)
qed

lemma parseDigits_append:
  "parseDigits (xs @ ys) acc =
     (case parseDigits xs acc of None \<Rightarrow> None | Some a \<Rightarrow> parseDigits ys a)"
  by (induction xs arbitrary: acc) (auto split: option.splits)

lemma parseDigits_digits: "parseDigits (digits n) 0 = Some n"
proof (induction n rule: digits.induct)
  case (1 n)
  show ?case
  proof (cases "n < 10")
    case True
    then show ?thesis
      by (subst digits.simps) (simp add: digitVal_digit)
  next
    case False
    have "n mod 10 < 10" by simp
    with False "1.IH" show ?thesis
      by (subst digits.simps) (simp add: parseDigits_append digitVal_digit)
  qed
qed

lemma parseDigits_Itoa: "parseDigits (Itoa (int d)) 0 = Some d"
  by (simp add: Itoa_def parseDigits_digits)

section \<open>\<^verbatim>\<open>int64\<close> arithmetic\<close>

lemma sint_dec:
  fixes v :: int64
  assumes "0 <s v"
  shows "sint (v - 1) = sint v - 1"
proof -
  from assms have pos: "0 < sint v" by (simp add: word_sless_alt)
  have "sint v < 2 ^ 63" using sint_lt[of v] by simp
  with pos have "signed_take_bit 63 (sint v - 1) = sint v - 1"
    by (intro signed_take_bit_int_eq_self) simp_all
  then show ?thesis by (simp add: sint_word_ariths)
qed

lemma dec_nonneg:
  fixes v :: int64
  shows "0 <s v \<Longrightarrow> 0 \<le>s v - 1"
  using sint_dec[of v] by (simp add: word_sle_eq word_sless_alt)

lemma sint_inc:
  fixes v :: int64
  assumes "0 \<le>s v" and "v \<noteq> 2 ^ 63 - 1"
  shows "sint (v + 1) = sint v + 1"
proof -
  from assms(1) have nn: "0 \<le> sint v" by (simp add: word_sle_eq)
  have lt: "sint v < 2 ^ 63" using sint_lt[of v] by simp
  have "sint v \<noteq> 2 ^ 63 - 1"
  proof
    assume "sint v = 2 ^ 63 - 1"
    then have "word_of_int (sint v) = (word_of_int (2 ^ 63 - 1) :: int64)" by simp
    then have "v = 2 ^ 63 - 1" by simp
    with assms(2) show False by simp
  qed
  with lt have "sint v + 1 < 2 ^ 63" by simp
  with nn have "signed_take_bit 63 (sint v + 1) = sint v + 1"
    by (intro signed_take_bit_int_eq_self) simp_all
  then show ?thesis by (simp add: sint_word_ariths)
qed

lemma inc_nonneg:
  fixes v :: int64
  shows "0 \<le>s v \<Longrightarrow> v \<noteq> 2 ^ 63 - 1 \<Longrightarrow> 0 \<le>s v + 1"
  using sint_inc[of v] by (simp add: word_sle_eq)

lemma max64_ge1: "1 \<le>s max64 n 1"
  by (simp add: max64_def word_sle_eq word_sless_alt)

lemma max64_nonneg: "0 \<le>s max64 n 1"
  by (simp add: max64_def word_sle_eq word_sless_alt)

section \<open>The queue while a call waits\<close>

lemma queueLeftD: "queueLeft w w' \<Longrightarrow> framed I \<Longrightarrow> I w \<Longrightarrow> I w'"
  unfolding queueLeft_def by blast

lemma queueLeft_refl: "queueLeft w w"
  unfolding queueLeft_def by blast

lemma queueLeft_trans: "queueLeft w w1 \<Longrightarrow> queueLeft w1 w2 \<Longrightarrow> queueLeft w w2"
  unfolding queueLeft_def by blast

lemma chSend_cap: "chSend v ch = Some ch' \<Longrightarrow> cap ch' = cap ch"
  by (auto simp: chSend_def split: if_splits)

lemma chRecv_cap: "chRecv ch = Some (x, ch') \<Longrightarrow> cap ch' = cap ch"
  by (auto simp: chRecv_def split: list.splits)

lemma setChan_frame:
  "c \<noteq> PendingOutgoing \<Longrightarrow> cap ch' = cap (chanOf c b) \<Longrightarrow>
   pendingOutgoing (setChan c ch' b) = pendingOutgoing b \<and> caps (setChan c ch' b) = caps b"
  by (cases c) (simp_all add: caps_def)

lemma queueLeft_interfere: "queueLeft w (interfere w)"
  unfolding queueLeft_def framed_def by blast

lemma queueLeft_step:
  "pendingOutgoing (f (st w)) = pendingOutgoing (st w) \<Longrightarrow> caps (f (st w)) = caps (st w) \<Longrightarrow>
   queueLeft w (step e f w)"
  unfolding queueLeft_def step_def framed_def by blast

lemma queueLeft_step_id: "queueLeft w (step e (\<lambda>b. b) w)"
  by (rule queueLeft_step) simp_all

lemma queueLeft_recv:
  "recv c w = (r, w') \<Longrightarrow> c \<noteq> PendingOutgoing \<Longrightarrow> queueLeft w w'"
proof (induction c w arbitrary: r w' rule: recv.induct)
  case (1 c w)
  show ?case
  proof (cases "chRecv (chanOf c (st w))")
    case None
    show ?thesis
    proof (cases "sched w = []")
      case True
      with None "1.prems" show ?thesis by (subst (asm) recv.simps) (simp add: queueLeft_refl)
    next
      case False
      with None "1.prems"(1) have "recv c (interfere w) = (r, w')"
        by (subst (asm) recv.simps) simp
      from "1.IH"[OF None False this "1.prems"(2)] queueLeft_interfere[of w]
      show ?thesis by (rule queueLeft_trans[rotated])
    qed
  next
    case (Some p)
    obtain x ch' where p: "p = (x, ch')" by (cases p)
    with Some "1.prems"(1) have w': "w' = step (Received c x) (setChan c ch') w"
      by (subst (asm) recv.simps) simp
    from Some p have "cap ch' = cap (chanOf c (st w))" by (simp add: chRecv_cap)
    from setChan_frame[OF "1.prems"(2) this] w' show ?thesis by (simp add: queueLeft_step)
  qed
qed

lemma queueLeft_send:
  "send c v w = (r, w') \<Longrightarrow> c \<noteq> PendingOutgoing \<Longrightarrow> queueLeft w w'"
proof (induction c v w arbitrary: r w' rule: send.induct)
  case (1 c v w)
  show ?case
  proof (cases "chSend v (chanOf c (st w))")
    case None
    show ?thesis
    proof (cases "sched w = []")
      case True
      with None "1.prems" show ?thesis by (subst (asm) send.simps) (simp add: queueLeft_refl)
    next
      case False
      with None "1.prems"(1) have "send c v (interfere w) = (r, w')"
        by (subst (asm) send.simps) simp
      from "1.IH"[OF None False this "1.prems"(2)] queueLeft_interfere[of w]
      show ?thesis by (rule queueLeft_trans[rotated])
    qed
  next
    case (Some ch')
    with "1.prems"(1) have w': "w' = step (Sent c v) (setChan c ch') w"
      by (subst (asm) send.simps) simp
    from Some have "cap ch' = cap (chanOf c (st w))" by (simp add: chSend_cap)
    from setChan_frame[OF "1.prems"(2) this] w' show ?thesis by (simp add: queueLeft_step)
  qed
qed

lemma queueLeft_trySend:
  assumes "trySend c v w = (ok, w')" and "c \<noteq> PendingOutgoing"
  shows "queueLeft w w'"
proof (cases "chSend v (chanOf c (st w))")
  case None
  with assms(1) have "w' = step (TrySent c v False) (\<lambda>b. b) w" by (simp add: trySend_def)
  then show ?thesis by (simp add: queueLeft_step_id)
next
  case (Some ch')
  with assms(1) have w': "w' = step (TrySent c v True) (setChan c ch') w" by (simp add: trySend_def)
  from Some have "cap ch' = cap (chanOf c (st w))" by (simp add: chSend_cap)
  from setChan_frame[OF assms(2) this] w' show ?thesis by (simp add: queueLeft_step)
qed

lemma queueLeft_unblock: "queueLeft w (unblockNoCreditBlock w)"
  using queueLeft_trySend[of NoCreditBlocker 1 w]
  by (cases "trySend NoCreditBlocker 1 w") (simp add: unblockNoCreditBlock_def)

lemma queueLeft_since: "since w = (t, w') \<Longrightarrow> queueLeft w w'"
  by (auto simp: since_def queueLeft_step_id)

lemma queueLeft_takeCredit:
  assumes "takeCredit w = (f, w')"
  shows "queueLeft w w'"
proof -
  obtain r1 w1 where r1: "recv OutgoingCredits w = (r1, w1)" by (cases "recv OutgoingCredits w")
  from queueLeft_recv[OF r1] have i1: "queueLeft w w1" by simp
  show ?thesis
  proof (cases r1)
    case None
    with assms(1) r1 i1 show ?thesis by (simp add: takeCredit_def)
  next
    case (Some u)
    obtain ok w2 where s2: "send OutgoingCredits (if 0 <s u then u - 1 else 0) w1 = (ok, w2)"
      by (cases "send OutgoingCredits (if 0 <s u then u - 1 else 0) w1")
    from queueLeft_send[OF s2] i1 have i2: "queueLeft w w2"
      by (simp add: queueLeft_trans)
    from queueLeft_trans[OF i2 queueLeft_unblock] have i3: "queueLeft w (unblockNoCreditBlock w2)" .
    from assms(1) r1 Some s2 i2 i3 show ?thesis
      by (cases ok) (auto simp: takeCredit_def split: if_splits)
  qed
qed

text \<open>
  A pass that ends in \<open>Return\<close> found the request expired in some world \<open>wk\<close>; up to
  there, and in every other pass, the queue is left to the other goroutines.
\<close>

lemma queueLeft_iteration:
  assumes "iteration fl w = (f, w')"
  shows "case f of Return e \<Rightarrow> \<exists>wk. queueLeft w wk \<and> dropExpired wk = (Return e, w')
                 | _ \<Rightarrow> queueLeft w w'"
proof -
  obtain r1 w1 where r1: "recv NoCreditBlocker w = (r1, w1)" by (cases "recv NoCreditBlocker w")
  from queueLeft_recv[OF r1] have i1: "queueLeft w w1" by simp
  show ?thesis
  proof (cases r1)
    case None
    with assms r1 i1 show ?thesis by (auto simp: iteration_def)
  next
    case (Some s)
    obtain t w2 where s2: "since w1 = (t, w2)" by (cases "since w1")
    from queueLeft_trans[OF i1 queueLeft_since[OF s2]] have i2: "queueLeft w w2" .
    have nr: "takeCredit v \<noteq> (Return e, w')" for v e
      using takeCredit_effect[of v "Return e" w'] by auto
    from assms r1 Some s2 consider
      (drop) "dropExpired w2 = (f, w')" | (take1) "takeCredit w1 = (f, w')" | (take2) "takeCredit w2 = (f, w')"
      by (auto simp: iteration_def split: if_splits)
    then show ?thesis
    proof cases
      case drop
      from dropExpired_effect[OF drop] have "f = Return (requestExpired (st w2))" by simp
      with drop i2 show ?thesis by auto
    next
      case take1
      from queueLeft_trans[OF i1 queueLeft_takeCredit[OF take1]] nr take1
      show ?thesis by (cases f) auto
    next
      case take2
      from queueLeft_trans[OF i2 queueLeft_takeCredit[OF take2]] nr take2
      show ?thesis by (cases f) auto
    qed
  qed
qed

lemma queueLeft_waitForCredit:
  "waitForCredit fl w = (f, w') \<Longrightarrow>
   (case f of Return e \<Rightarrow> \<exists>wk. queueLeft w wk \<and> dropExpired wk = (Return e, w')
            | _ \<Rightarrow> queueLeft w w')"
proof (induction fl w arbitrary: f w' rule: waitForCredit.induct)
  case (1 fl w)
  obtain g w1 where it: "iteration fl w = (g, w1)" by (cases "iteration fl w")
  note fi = queueLeft_iteration[OF it]
  show ?case
  proof (cases "g = Continue")
    case True
    with "1.prems" it have l: "waitForCredit fl w1 = (f, w')"
      by (subst (asm) waitForCredit.simps) simp
    from fi True have k: "queueLeft w w1" by simp
    from "1.IH"[OF it[symmetric] True l] queueLeft_trans[OF k] show ?thesis
      by (cases f) auto
  next
    case False
    with "1.prems" it have "f = g" "w' = w1"
      by (subst (asm) waitForCredit.simps; cases g; simp)+
    with fi show ?thesis by (cases g) auto
  qed
qed






text \<open>The other goroutines' moves, as far as \<^verbatim>\<open>pendingOutgoing\<close> goes.\<close>

lemma applyEnv_off_queue:
  "\<not> onQueue e \<Longrightarrow> pendingOutgoing (st (applyEnv w e)) = pendingOutgoing (st w)"
proof (cases e)
  case (Put c v)
  assume "\<not> onQueue e"
  with Put show ?thesis by (cases c) (auto split: option.splits)
next
  case (Take c)
  assume "\<not> onQueue e"
  with Take show ?thesis by (cases c) (auto split: option.splits)
next
  case (Tick t)
  then show ?thesis by simp
qed

lemma foldl_off_queue:
  "list_all (\<lambda>e. \<not> onQueue e) es \<Longrightarrow>
   pendingOutgoing (st (foldl applyEnv w es)) = pendingOutgoing (st w)"
  by (induction es arbitrary: w) (simp_all add: applyEnv_off_queue)

lemma untouched_interfere:
  "queueUntouched w \<Longrightarrow>
   queueUntouched (interfere w) \<and> pendingOutgoing (st (interfere w)) = pendingOutgoing (st w)"
  by (cases "sched w") (simp_all add: queueUntouched_def interfere_def foldl_off_queue)

lemma framed_untouched: "framed (\<lambda>w. queueUntouched w \<and> pendingOutgoing (st w) = q)"
  unfolding framed_def using untouched_interfere by (auto simp: queueUntouched_def)

lemma queueLeft_untouched:
  "queueLeft w w' \<Longrightarrow> queueUntouched w \<Longrightarrow>
   queueUntouched w' \<and> pendingOutgoing (st w') = pendingOutgoing (st w)"
  using queueLeftD[OF _ framed_untouched[of "pendingOutgoing (st w)"], of w w'] by simp

lemma keepsEntry_applyEnv:
  assumes "buf (pendingOutgoing (st w)) \<noteq> []"
    and "keepsEntry (length (buf (pendingOutgoing (st w)))) (cap (pendingOutgoing (st w))) (e # es)"
  shows "buf (pendingOutgoing (st (applyEnv w e))) \<noteq> [] \<and>
    keepsEntry (length (buf (pendingOutgoing (st (applyEnv w e)))))
      (cap (pendingOutgoing (st (applyEnv w e)))) es"
proof (cases e)
  case (Put c v)
  with assms show ?thesis
    by (cases c) (auto simp: chSend_def split: option.splits if_splits)
next
  case (Take c)
  with assms show ?thesis
    by (cases c; cases "buf (pendingOutgoing (st w))")
      (auto simp: chRecv_def split: option.splits list.splits if_splits)
next
  case (Tick t)
  with assms show ?thesis by simp
qed

lemma keepsEntry_foldl:
  "buf (pendingOutgoing (st w)) \<noteq> [] \<Longrightarrow>
   keepsEntry (length (buf (pendingOutgoing (st w)))) (cap (pendingOutgoing (st w))) (es @ rest) \<Longrightarrow>
   buf (pendingOutgoing (st (foldl applyEnv w es))) \<noteq> [] \<and>
   keepsEntry (length (buf (pendingOutgoing (st (foldl applyEnv w es)))))
     (cap (pendingOutgoing (st (foldl applyEnv w es)))) rest"
proof (induction es arbitrary: w)
  case Nil
  then show ?case by simp
next
  case (Cons e es)
  from keepsEntry_applyEnv[OF Cons.prems(1), of e "es @ rest"] Cons.prems(2)
  have "buf (pendingOutgoing (st (applyEnv w e))) \<noteq> []"
    "keepsEntry (length (buf (pendingOutgoing (st (applyEnv w e)))))
      (cap (pendingOutgoing (st (applyEnv w e)))) (es @ rest)"
    by simp_all
  from Cons.IH[OF this] show ?case by simp
qed

lemma entryKept_interfere: "entryKept w \<Longrightarrow> entryKept (interfere w)"
proof (cases "sched w")
  case Nil
  assume "entryKept w"
  with Nil show ?thesis by (simp add: interfere_def)
next
  case (Cons es rest)
  assume "entryKept w"
  with Cons keepsEntry_foldl[of w es "concat rest"] show ?thesis
    by (simp add: entryKept_def interfere_def)
qed

lemma framed_entryKept: "framed entryKept"
  unfolding framed_def using entryKept_interfere by (auto simp: entryKept_def caps_def)

lemma queueLeft_entryKept: "queueLeft w w' \<Longrightarrow> entryKept w \<Longrightarrow> entryKept w'"
  by (rule queueLeftD[OF _ framed_entryKept])



lemma queueRequest_entry:
  assumes "queueRequest w = (True, w0)" and "entryStays w"
  shows "entryKept w0"
proof -
  define wm where "wm = w\<lparr>st := setChan PendingOutgoing
      ((pendingOutgoing (st w))\<lparr>buf := buf (pendingOutgoing (st w)) @ [1]\<rparr>) (st w),
    trace := trace w @ [TrySent PendingOutgoing 1 True]\<rparr>"
  from assms(1) have "w0 = interfere wm"
    by (auto simp: queueRequest_def trySend_def chSend_def step_def wm_def split: if_splits)
  moreover from assms(2) have "entryKept wm"
    by (simp add: entryKept_def entryStays_def wm_def)
  ultimately show ?thesis by (simp add: entryKept_interfere)
qed

lemma untouched_step:
  assumes "queueUntouched w"
  shows "queueUntouched (step e f w) \<and>
    pendingOutgoing (st (step e f w)) = pendingOutgoing (f (st w))"
proof -
  from assms have "queueUntouched (w\<lparr>st := f (st w), trace := trace w @ [e]\<rparr>)"
    by (simp add: queueUntouched_def)
  from untouched_interfere[OF this] show ?thesis by (simp add: step_def)
qed

lemma queueRequest_untouched:
  assumes "queueRequest w = (added, w0)" and "queueUntouched w"
  shows "queueUntouched w0 \<and>
    buf (pendingOutgoing (st w0)) = buf (pendingOutgoing (st w)) @ (if added then [1] else [])"
  using assms(1) untouched_step[OF assms(2)]
  by (auto simp: queueRequest_def trySend_def chSend_def split: if_splits)

lemma tryRecv_queue:
  assumes "tryRecv PendingOutgoing w = (x, w')"
  shows "(x = None \<longleftrightarrow> buf (pendingOutgoing (st w)) = []) \<and>
    (queueUntouched w \<longrightarrow> buf (pendingOutgoing (st w')) = tl (buf (pendingOutgoing (st w))))"
  using assms untouched_step[of w]
  by (auto simp: tryRecv_def chRecv_def split: list.splits)


section \<open>The trace of a whole call\<close>

lemma sendRequest_effect:
  assumes "sendRequest fl invoker c w = (r, w')"
  shows "cfg (st w') = cfg (st w) \<and>
    (\<exists>md x post wq.
       md = c @ [(''demand'', Itoa (int (length (buf (pendingOutgoing (st w)))))),
                 (''id'', id_string (st w))] \<and>
       trace w' = trace w @ [Len PendingOutgoing (length (buf (pendingOutgoing (st w)))),
                             Attached md, TryReceived PendingOutgoing x, Invoked md] @ post \<and>
       settlement fl (invoker md) r post \<and>
       queueLeft w wq \<and> (x = None \<longleftrightarrow> buf (pendingOutgoing (st wq)) = []))"
proof -
  define d where "d = length (buf (pendingOutgoing (st w)))"
  define w1 where "w1 = step (Len PendingOutgoing d) (\<lambda>b. b) w"
  define md where "md = c @ [(''demand'', Itoa (int d)), (''id'', id_string (st w))]"
  define w2 where "w2 = step (Attached md) (\<lambda>b. b) w1"
  obtain x w3 where tr: "tryRecv PendingOutgoing w2 = (x, w3)" by (cases "tryRecv PendingOutgoing w2")
  then have dq: "dequeueRequest w2 = (x \<noteq> None, w3)"
    by (cases x) (simp_all add: dequeueRequest_def)
  define w4 where "w4 = step (Invoked md) (\<lambda>b. b) w3"
  have c1: "cfg (st w1) = cfg (st w)" by (simp add: w1_def)
  then have id1: "id_string (st w1) = id_string (st w)" by (simp add: cfg_def)
  have c2: "cfg (st w2) = cfg (st w)" using c1 by (simp add: w2_def)
  from tryRecv_effect[OF tr] have
    c3: "cfg (st w3) = cfg (st w2)" and t3: "trace w3 = trace w2 @ [TryReceived PendingOutgoing x]"
    by auto
  have c4: "cfg (st w4) = cfg (st w)" using c3 c2 by (simp add: w4_def)
  have t4: "trace w4 = trace w @ [Len PendingOutgoing d, Attached md, TryReceived PendingOutgoing x, Invoked md]"
    using t3 by (simp add: w4_def w2_def w1_def)
  have ql: "queueLeft w w2"
    unfolding w2_def w1_def by (rule queueLeft_trans[OF queueLeft_step_id queueLeft_step_id])
  from tryRecv_queue[OF tr] have xq: "x = None \<longleftrightarrow> buf (pendingOutgoing (st w2)) = []" by simp
  have "sendRequest fl invoker c w = afterInvoke fl (invoker md) w4"
    using dq id1
    by (simp add: sendRequest_def getDemand_def chanLen_def appendToOutgoingContext_def invoke_def
        Let_def d_def[symmetric] w1_def[symmetric] md_def[symmetric] w2_def[symmetric] w4_def[symmetric])
  with assms have "afterInvoke fl (invoker md) w4 = (r, w')" by simp
  from afterInvoke_effect[OF this] c4 t4 ql xq show ?thesis
    unfolding md_def d_def by auto
qed

lemma waitForCredit_not_Continue: "waitForCredit fl w \<noteq> (Continue, w')"
  using waitForCredit_effect[of fl w Continue w'] by auto

lemma UnaryInterceptorClient_cases:
  assumes "UnaryInterceptorClient fl invoker c w = (r, w')"
  obtains
    (dropped) "useClientQueueLength fl" "queueRequest w = (False, w')"
      "r = Returned (Some (queueTooLong (st w')))"
  | (expired) added w0 e where "queueRequest w = (added, w0)"
      "waitForCredit fl w0 = (Return e, w')" "r = Returned (Some e)"
  | (parked) added w0 where "queueRequest w = (added, w0)"
      "waitForCredit fl w0 = (Park, w')" "r = Parked"
  | (admitted) added w0 wa where "queueRequest w = (added, w0)"
      "waitForCredit fl w0 = (Break, wa)" "sendRequest fl invoker c wa = (r, w')"
proof -
  obtain added w0 where q: "queueRequest w = (added, w0)" by (cases "queueRequest w")
  show thesis
  proof (cases "useClientQueueLength fl \<and> \<not> added")
    case True
    with assms q dropped show ?thesis
      by (auto simp: UnaryInterceptorClient_def)
  next
    case False
    obtain f w1 where l: "waitForCredit fl w0 = (f, w1)" by (cases "waitForCredit fl w0")
    from False assms q l have u:
      "(case f of Break \<Rightarrow> sendRequest fl invoker c w1
        | Return e \<Rightarrow> (Returned (Some e), w1)
        | _ \<Rightarrow> (Parked, w1)) = (r, w')"
      by (auto simp: UnaryInterceptorClient_def)
    show ?thesis
    proof (cases f)
      case Continue
      with l waitForCredit_not_Continue show ?thesis by blast
    next
      case Break
      with u q l admitted show ?thesis by simp
    next
      case (Return e)
      with u q l expired show ?thesis by simp
    next
      case Park
      with u q l parked show ?thesis by simp
    qed
  qed
qed

lemma queueRequest_effect:
  "queueRequest w = (added, w0) \<Longrightarrow>
   cfg (st w0) = cfg (st w) \<and> trace w0 = trace w @ [TrySent PendingOutgoing 1 added]"
  by (simp add: queueRequest_def trySend_effect)






lemma wakeup_Invoked: "wakeup fl exp wk \<Longrightarrow> Invoked m \<notin> set wk"
  by (auto simp: wakeup_def split: if_splits)

lemma emptyRound_Invoked: "emptyRound fl exp rd \<Longrightarrow> Invoked m \<notin> set rd"
  by (auto simp: emptyRound_def dest: wakeup_Invoked)

lemma admission_Invoked: "admission fl exp v tr \<Longrightarrow> Invoked m \<notin> set tr"
  by (auto simp: admission_def dest: wakeup_Invoked split: if_splits)

lemma parkedPass_Invoked: "parkedPass fl exp tr \<Longrightarrow> Invoked m \<notin> set tr"
  by (auto simp: parkedPass_def dest: wakeup_Invoked)

lemma expiry_Invoked: "expiry fl exp tr \<Longrightarrow> Invoked m \<notin> set tr"
  by (auto simp: expiry_def)

lemma settlement_Invoked: "settlement fl rp r tr \<Longrightarrow> Invoked m \<notin> set tr"
  by (auto simp: settlement_def split: option.splits if_splits)

lemma pass_Invoked: "pass fl b f tr \<Longrightarrow> Invoked m \<notin> set tr"
  by (cases f)
    (auto simp: pass_def dest: emptyRound_Invoked admission_Invoked expiry_Invoked parkedPass_Invoked)

lemma rounds_Invoked:
  "\<forall>rd \<in> set rounds. emptyRound fl exp rd \<Longrightarrow> Invoked m \<notin> set (concat rounds)"
  by (auto dest: emptyRound_Invoked)


lemma gate_effect:
  assumes q: "queueRequest w = (added, w0)" and l: "waitForCredit fl w0 = (f, w1)"
  shows "cfg (st w1) = cfg (st w) \<and>
    (\<exists>rounds last.
       trace w1 = trace w @ TrySent PendingOutgoing 1 added # concat rounds @ last \<and>
       (\<forall>rd \<in> set rounds. emptyRound fl (clientExpiration (st w)) rd) \<and>
       pass fl (st w) f last)"
proof -
  from queueRequest_effect[OF q] have c0: "cfg (st w0) = cfg (st w)"
    and t0: "trace w0 = trace w @ [TrySent PendingOutgoing 1 added]" by simp_all
  from c0 have x: "clientExpiration (st w0) = clientExpiration (st w)" by (simp add: cfg_def)
  from waitForCredit_effect[OF l] obtain rounds last where
    "cfg (st w1) = cfg (st w0)" "trace w1 = trace w0 @ concat rounds @ last"
    "\<forall>rd \<in> set rounds. emptyRound fl (clientExpiration (st w0)) rd" "pass fl (st w0) f last"
    by auto
  with c0 t0 x pass_cfg[OF c0] show ?thesis
    by (intro conjI exI[of _ rounds] exI[of _ last]) simp_all
qed

lemma wakeup_Sent: "wakeup fl exp wk \<Longrightarrow> Sent c x \<notin> set wk"
  by (auto simp: wakeup_def split: if_splits)

lemma emptyRound_Sent: "emptyRound fl exp rd \<Longrightarrow> Sent OutgoingCredits x \<in> set rd \<Longrightarrow> x = 0"
  by (auto simp: emptyRound_def dest: wakeup_Sent)

lemma admission_Sent: "admission fl exp v tr \<Longrightarrow> Sent OutgoingCredits x \<in> set tr \<Longrightarrow> 0 \<le>s x"
  by (auto simp: admission_def dec_nonneg dest: wakeup_Sent split: if_splits)

lemma pass_Sent: "pass fl b f tr \<Longrightarrow> Sent OutgoingCredits x \<in> set tr \<Longrightarrow> 0 \<le>s x"
  by (cases f)
    (auto simp: pass_def parkedPass_def expiry_def
      dest: emptyRound_Sent admission_Sent wakeup_Sent)

lemma rounds_Sent:
  "\<forall>rd \<in> set rounds. emptyRound fl exp rd \<Longrightarrow> Sent OutgoingCredits x \<in> set (concat rounds) \<Longrightarrow>
   0 \<le>s x"
  by (auto dest: emptyRound_Sent)

lemma settlement_Sent:
  assumes "settlement fl rp r tr" and "Sent OutgoingCredits x \<in> set tr"
  shows "1 \<le>s x \<or> (\<exists>cr. TryReceived OutgoingCredits (Some cr) \<in> set tr \<and> x = cr + 1)"
  using assms max64_ge1
  by (auto simp: settlement_def split: option.splits if_splits)

lemma one_nonneg: "1 \<le>s (x :: int64) \<Longrightarrow> 0 \<le>s x"
  by (simp add: word_sle_eq)

section \<open>The counter stays non-negative\<close>

lemma applyEnv_held:
  "held w \<Longrightarrow> (\<forall>v. e = Put OutgoingCredits v \<longrightarrow> 0 \<le>s v) \<Longrightarrow> held (applyEnv w e)"
proof (cases e)
  case (Put c v)
  assume "held w" "\<forall>v. e = Put OutgoingCredits v \<longrightarrow> 0 \<le>s v"
  with Put show ?thesis
    by (cases c) (auto simp: held_def chSend_def split: option.splits if_splits)
next
  case (Take c)
  assume "held w"
  with Take show ?thesis
    by (cases c) (auto simp: held_def chRecv_def split: option.splits list.splits)
next
  case (Tick t)
  assume "held w"
  with Tick show ?thesis by (simp add: held_def)
qed

lemma foldl_applyEnv_held:
  "held w \<Longrightarrow> (\<forall>v. Put OutgoingCredits v \<in> set es \<longrightarrow> 0 \<le>s v) \<Longrightarrow> held (foldl applyEnv w es)"
proof (induction es arbitrary: w)
  case Nil
  then show ?case by simp
next
  case (Cons e es)
  from Cons.prems have "held (applyEnv w e)" by (intro applyEnv_held) auto
  with Cons show ?case by simp
qed

lemma held_sched_upd [simp]: "held (w\<lparr>sched := s\<rparr>) = held w"
  by (simp add: held_def)

lemma nonneg_interfere: "nonneg w \<Longrightarrow> nonneg (interfere w)"
proof (cases "sched w")
  case Nil
  assume "nonneg w"
  with Nil show ?thesis by (simp add: interfere_def)
next
  case (Cons es rest)
  assume n: "nonneg w"
  with Cons have "held w" "\<forall>v. Put OutgoingCredits v \<in> set es \<longrightarrow> 0 \<le>s v"
    by (auto simp: nonneg_def held_def)
  then have "held (foldl applyEnv w es)" by (rule foldl_applyEnv_held)
  with n Cons show ?thesis
    by (auto simp: nonneg_def held_def interfere_def)
qed

lemma nonneg_step:
  assumes "nonneg w" and "\<forall>x \<in> set (buf (outgoingCredits (f (st w)))). 0 \<le>s x"
  shows "nonneg (step e f w)"
proof -
  from assms have "nonneg (w\<lparr>st := f (st w), trace := trace w @ [e]\<rparr>)"
    by (simp add: nonneg_def)
  then show ?thesis unfolding step_def by (rule nonneg_interfere)
qed

lemma nonneg_step_id: "nonneg w \<Longrightarrow> nonneg (step e (\<lambda>b. b) w)"
  by (rule nonneg_step) (simp_all add: nonneg_def)

lemma nonneg_step_other:
  "nonneg w \<Longrightarrow> c \<noteq> OutgoingCredits \<Longrightarrow> nonneg (step e (setChan c ch) w)"
  by (rule nonneg_step) (cases c; simp_all add: nonneg_def)+

lemma recv_nonneg:
  "recv c w = (r, w') \<Longrightarrow> nonneg w \<Longrightarrow>
   nonneg w' \<and> (\<forall>x. c = OutgoingCredits \<and> r = Some x \<longrightarrow> 0 \<le>s x)"
proof (induction c w arbitrary: r w' rule: recv.induct)
  case (1 c w)
  show ?case
  proof (cases "chRecv (chanOf c (st w))")
    case None
    show ?thesis
    proof (cases "sched w = []")
      case True
      with None "1.prems" show ?thesis by (subst (asm) recv.simps) simp
    next
      case False
      with None "1.prems" have "recv c (interfere w) = (r, w')"
        by (subst (asm) recv.simps) simp
      from "1.IH"[OF None False this nonneg_interfere[OF "1.prems"(2)]] show ?thesis .
    qed
  next
    case (Some p)
    obtain x c' where p: "p = (x, c')" by (cases p)
    with Some obtain xs where b: "buf (chanOf c (st w)) = x # xs" "c' = (chanOf c (st w))\<lparr>buf := xs\<rparr>"
      by (auto simp: chRecv_def split: list.splits)
    from Some p "1.prems" have r: "r = Some x" and w': "w' = step (Received c x) (setChan c c') w"
      by (subst (asm) recv.simps; simp)+
    have "nonneg w'"
      unfolding w' using "1.prems"(2) b
      by (intro nonneg_step) (cases c; auto simp: nonneg_def)+
    moreover have "0 \<le>s x" if "c = OutgoingCredits"
      using that b "1.prems"(2) by (auto simp: nonneg_def)
    ultimately show ?thesis using r by simp
  qed
qed

lemma send_nonneg:
  "send c v w = (ok, w') \<Longrightarrow> nonneg w \<Longrightarrow> (c = OutgoingCredits \<longrightarrow> 0 \<le>s v) \<Longrightarrow> nonneg w'"
proof (induction c v w arbitrary: ok w' rule: send.induct)
  case (1 c v w)
  show ?case
  proof (cases "chSend v (chanOf c (st w))")
    case None
    show ?thesis
    proof (cases "sched w = []")
      case True
      with None "1.prems" show ?thesis by (subst (asm) send.simps) simp
    next
      case False
      with None "1.prems" have "send c v (interfere w) = (ok, w')"
        by (subst (asm) send.simps) simp
      from "1.IH"[OF None False this nonneg_interfere[OF "1.prems"(2)] "1.prems"(3)] show ?thesis .
    qed
  next
    case (Some c')
    then have c': "c' = (chanOf c (st w))\<lparr>buf := buf (chanOf c (st w)) @ [v]\<rparr>"
      by (auto simp: chSend_def split: if_splits)
    from Some "1.prems" have w': "w' = step (Sent c v) (setChan c c') w"
      by (subst (asm) send.simps) simp
    show ?thesis
      unfolding w' using "1.prems"(2,3) c'
      by (intro nonneg_step) (cases c; auto simp: nonneg_def)+
  qed
qed

lemma trySend_nonneg:
  "trySend c v w = (ok, w') \<Longrightarrow> nonneg w \<Longrightarrow> c \<noteq> OutgoingCredits \<Longrightarrow> nonneg w'"
  by (auto simp: trySend_def nonneg_step_id nonneg_step_other split: option.splits)

lemma tryRecv_nonneg:
  assumes "tryRecv c w = (r, w')" and "nonneg w"
  shows "nonneg w' \<and> (\<forall>x. c = OutgoingCredits \<and> r = Some x \<longrightarrow> 0 \<le>s x)"
proof (cases "chRecv (chanOf c (st w))")
  case None
  with assms show ?thesis by (auto simp: tryRecv_def nonneg_step_id)
next
  case (Some p)
  obtain x c' where p: "p = (x, c')" by (cases p)
  with Some obtain xs where b: "buf (chanOf c (st w)) = x # xs" "c' = (chanOf c (st w))\<lparr>buf := xs\<rparr>"
    by (auto simp: chRecv_def split: list.splits)
  from Some p assms have r: "r = Some x" and w': "w' = step (TryReceived c (Some x)) (setChan c c') w"
    by (auto simp: tryRecv_def)
  have "nonneg w'"
    unfolding w' using assms(2) b
    by (intro nonneg_step) (cases c; auto simp: nonneg_def)+
  moreover have "0 \<le>s x" if "c = OutgoingCredits"
    using that b assms(2) by (auto simp: nonneg_def)
  ultimately show ?thesis using r by simp
qed

lemma unblock_nonneg: "nonneg w \<Longrightarrow> nonneg (unblockNoCreditBlock w)"
  using trySend_nonneg[of NoCreditBlocker 1 w]
  by (cases "trySend NoCreditBlocker 1 w") (simp add: unblockNoCreditBlock_def)

lemma dequeue_nonneg: "dequeueRequest w = (ok, w') \<Longrightarrow> nonneg w \<Longrightarrow> nonneg w'"
  using tryRecv_nonneg[of PendingOutgoing w]
  by (cases "tryRecv PendingOutgoing w") (auto simp: dequeueRequest_def split: option.splits)

lemma queueRequest_nonneg: "queueRequest w = (ok, w') \<Longrightarrow> nonneg w \<Longrightarrow> nonneg w'"
  using trySend_nonneg[of PendingOutgoing 1 w] by (simp add: queueRequest_def)

lemma takeCredit_nonneg:
  assumes "takeCredit w = (f, w')" and "nonneg w"
  shows "nonneg w'"
proof -
  obtain r1 w1 where r1: "recv OutgoingCredits w = (r1, w1)" by (cases "recv OutgoingCredits w")
  from recv_nonneg[OF r1 assms(2)] have n1: "nonneg w1" by simp
  show ?thesis
  proof (cases r1)
    case None
    with assms r1 n1 show ?thesis by (simp add: takeCredit_def)
  next
    case (Some u)
    define v where "v = (if 0 <s u then u - 1 else 0)"
    have v: "0 \<le>s v" using dec_nonneg[of u] by (simp add: v_def)
    obtain ok w2 where s2: "send OutgoingCredits v w1 = (ok, w2)"
      by (cases "send OutgoingCredits v w1")
    from send_nonneg[OF s2 n1] v have n2: "nonneg w2" by simp
    from assms(1) r1 Some s2 n2 unblock_nonneg[OF n2] show ?thesis
      by (cases ok) (auto simp: takeCredit_def v_def split: if_splits)
  qed
qed

lemma dropExpired_nonneg:
  assumes "dropExpired w = (f, w')" and "nonneg w"
  shows "nonneg w'"
proof -
  obtain ok w2 where d: "dequeueRequest (unblockNoCreditBlock w) = (ok, w2)"
    by (cases "dequeueRequest (unblockNoCreditBlock w)")
  from dequeue_nonneg[OF d unblock_nonneg[OF assms(2)]] assms(1) d show ?thesis
    by (auto simp: dropExpired_def)
qed

lemma iteration_nonneg:
  assumes "iteration fl w = (f, w')" and "nonneg w"
  shows "nonneg w'"
proof -
  obtain r1 w1 where r1: "recv NoCreditBlocker w = (r1, w1)" by (cases "recv NoCreditBlocker w")
  from recv_nonneg[OF r1 assms(2)] have n1: "nonneg w1" by simp
  obtain t w2 where s2: "since w1 = (t, w2)" by (cases "since w1")
  then have n2: "nonneg w2" using n1 by (auto simp: since_def nonneg_step_id)
  from assms(1) r1 s2 have
    "w' = w1 \<or> takeCredit w1 = (f, w') \<or> takeCredit w2 = (f, w') \<or> dropExpired w2 = (f, w')"
    by (cases r1) (auto simp: iteration_def split: if_splits)
  with n1 n2 takeCredit_nonneg dropExpired_nonneg show ?thesis by blast
qed

lemma waitForCredit_nonneg:
  "waitForCredit fl w = (f, w') \<Longrightarrow> nonneg w \<Longrightarrow> nonneg w'"
proof (induction fl w rule: waitForCredit.induct)
  case (1 fl w)
  obtain g w1 where it: "iteration fl w = (g, w1)" by (cases "iteration fl w")
  from iteration_nonneg[OF it "1.prems"(2)] have n1: "nonneg w1" .
  show ?case
  proof (cases "g = Continue")
    case True
    with "1.prems" it have "waitForCredit fl w1 = (f, w')"
      by (subst (asm) waitForCredit.simps) simp
    from "1.IH"[OF it[symmetric] True this n1] show ?thesis .
  next
    case False
    with "1.prems" it have "w' = w1"
      by (subst (asm) waitForCredit.simps; cases g; simp)
    with n1 show ?thesis by simp
  qed
qed

lemma afterInvoke_nonneg:
  assumes a: "afterInvoke fl rp w = (r, w')" and n: "nonneg w"
    and m: "\<forall>v. TryReceived OutgoingCredits (Some v) \<in> set (trace w') \<longrightarrow> v \<noteq> 2 ^ 63 - 1"
  shows "nonneg w'"
proof (cases "fst rp")
  case None
  obtain x w1 where t: "recv OutgoingCredits w = (x, w1)" by (cases "recv OutgoingCredits w")
  from recv_nonneg[OF t n] have n1: "nonneg w1" by simp
  show ?thesis
  proof (cases x)
    case xn: None
    with a None t n1 show ?thesis
      by (cases "snd rp ''credits''") (auto simp: afterInvoke_def)
  next
    case (Some u)
    define k where "k = max64 (case snd rp ''credits'' of [] \<Rightarrow> u | c # _ \<Rightarrow> ParseInt c) 1"
    obtain ok w2 where s: "send OutgoingCredits k w1 = (ok, w2)"
      by (cases "send OutgoingCredits k w1")
    from send_nonneg[OF s n1] max64_nonneg have n2: "nonneg w2" by (simp add: k_def)
    have "afterInvoke fl rp w =
        (case send OutgoingCredits k w1 of
           (False, w2) \<Rightarrow> (Parked, w2)
         | (True, w2) \<Rightarrow> (Returned None, unblockNoCreditBlock w2))"
      using t Some None by (cases "snd rp ''credits''") (simp_all add: afterInvoke_def k_def)
    with a s n2 unblock_nonneg[OF n2] show ?thesis
      by (cases ok) auto
  qed
next
  case (Some err)
  show ?thesis
  proof (cases "creditsOnFail fl")
    case False
    with a Some n show ?thesis by (simp add: afterInvoke_def)
  next
    case True
    obtain x w1 where t: "tryRecv OutgoingCredits w = (x, w1)" by (cases "tryRecv OutgoingCredits w")
    from tryRecv_nonneg[OF t n] have n1: "nonneg w1" and x: "\<forall>v. x = Some v \<longrightarrow> 0 \<le>s v"
      by simp_all
    from tryRecv_effect[OF t] have t1: "trace w1 = trace w @ [TryReceived OutgoingCredits x]" by simp
    show ?thesis
    proof (cases x)
      case None
      with a Some True t unblock_nonneg[OF n1] show ?thesis
        by (auto simp: afterInvoke_def)
    next
      case cr: (Some cr)
      obtain ok w2 where s: "send OutgoingCredits (cr + 1) w1 = (ok, w2)"
        by (cases "send OutgoingCredits (cr + 1) w1")
      from send_effect[OF s] t1 have t2: "TryReceived OutgoingCredits x \<in> set (trace w2)"
        by simp
      obtain ok' where t3: "trace (unblockNoCreditBlock w2) = trace w2 @ [TrySent NoCreditBlocker 1 ok']"
        by (rule unblock_trace)
      from a Some True t cr s have "w' = w2 \<or> w' = unblockNoCreditBlock w2"
        by (cases ok) (auto simp: afterInvoke_def)
      with t2 t3 have "TryReceived OutgoingCredits (Some cr) \<in> set (trace w')"
        using cr by auto
      with m have "cr \<noteq> 2 ^ 63 - 1" by simp
      with x cr have "0 \<le>s cr + 1" by (simp add: inc_nonneg)
      with send_nonneg[OF s n1] have n2: "nonneg w2" by simp
      from a Some True t cr s n2 unblock_nonneg[OF n2] show ?thesis
        by (cases ok) (auto simp: afterInvoke_def)
    qed
  qed
qed

lemma afterInvoke_trace_mono:
  "afterInvoke fl rp w = (r, w') \<Longrightarrow> set (trace w) \<subseteq> set (trace w')"
  using afterInvoke_effect[of fl rp w r w'] by auto

lemma sendRequest_nonneg:
  assumes a: "sendRequest fl invoker c w = (r, w')" and n: "nonneg w"
    and m: "\<forall>v. TryReceived OutgoingCredits (Some v) \<in> set (trace w') \<longrightarrow> v \<noteq> 2 ^ 63 - 1"
  shows "nonneg w'"
proof -
  obtain d w1 where g: "getDemand w = (d, w1)" by (cases "getDemand w")
  then have n1: "nonneg w1" using n by (auto simp: getDemand_def chanLen_def Let_def nonneg_step_id)
  obtain c' w2 where ap: "appendToOutgoingContext c [(''demand'', Itoa d), (''id'', id_string (st w1))] w1 = (c', w2)"
    by (cases "appendToOutgoingContext c [(''demand'', Itoa d), (''id'', id_string (st w1))] w1")
  then have n2: "nonneg w2" using n1 by (auto simp: appendToOutgoingContext_def nonneg_step_id)
  obtain ok w3 where dq: "dequeueRequest w2 = (ok, w3)" by (cases "dequeueRequest w2")
  from dequeue_nonneg[OF dq n2] have n3: "nonneg w3" .
  obtain rp w4 where iv: "invoke invoker c' w3 = (rp, w4)" by (cases "invoke invoker c' w3")
  then have n4: "nonneg w4" using n3 by (auto simp: invoke_def nonneg_step_id)
  from a g ap dq iv have "afterInvoke fl rp w4 = (r, w')"
    by (simp add: sendRequest_def)
  from afterInvoke_nonneg[OF this n4 m] show ?thesis .
qed

section \<open>Evaluating a run\<close>

lemmas run_defs =
  UnaryInterceptorClient_def queueRequest_def trySend_def tryRecv_def chSend_def chRecv_def
  step_def interfere_def waitForCredit.simps iteration_def takeCredit_def dropExpired_def
  recv.simps send.simps since_def unblockNoCreditBlock_def dequeueRequest_def
  sendRequest_def getDemand_def chanLen_def appendToOutgoingContext_def invoke_def
  afterInvoke_def Itoa_def digits.simps max64_def ParseInt_def ParseUint_def maxUint64_def
  digitVal_def
  queueTooLong_def requestExpired_def word_sless_alt word_sle_eq
  client_def waiting_def starved_def woken_late_def overflowing_def
  overtaken_late_def overtaken_granted_def granted_late_def
  all_on_def no_queue_limit_def grants_def fails_def

lemma applyEnv_trace_upd: "applyEnv (w\<lparr>trace := t\<rparr>) e = (applyEnv w e)\<lparr>trace := t\<rparr>"
  by (cases e) (auto split: option.splits)

lemma foldl_applyEnv_trace_upd: "foldl applyEnv (w\<lparr>trace := t\<rparr>) es = (foldl applyEnv w es)\<lparr>trace := t\<rparr>"
  by (induction es arbitrary: w) (simp_all add: applyEnv_trace_upd)

lemma interfere_trace_upd: "interfere (w\<lparr>trace := t\<rparr>) = (interfere w)\<lparr>trace := t\<rparr>"
  by (simp add: interfere_def foldl_applyEnv_trace_upd split: list.splits)



section \<open>Properties of a call\<close>

subsection \<open>C1: admission takes one credit from a positive balance\<close>



subsection \<open>C2: the values written to the counter\<close>

text \<open>
  C2, as the code has it.  Every value a call writes to \<^verbatim>\<open>outgoingCredits\<close> is
  non-negative, provided the balance it takes on the \<^verbatim>\<open>creditsOnFail\<close> path is
  non-negative and is not the largest \<^verbatim>\<open>int64\<close>, 9223372036854775807: there
  \<^verbatim>\<open>credit + 1\<close> wraps around.  The other writes need no assumption: a positive
  balance is decremented, any other is replaced by 0, and a reply writes at least 1.
  With that, the counter stays non-negative: when all values held in the channel and
  all values the other goroutines still put there are non-negative at entry, they are
  when the call ends, returned or parked.
\<close>

theorem credits_written_nonnegative:
  assumes run: "UnaryInterceptorClient fl invoker c w = (r, w')"
    and fresh: "trace w = []"
    and fail: "\<forall>v. TryReceived OutgoingCredits (Some v) \<in> set (trace w') \<longrightarrow>
                 0 \<le>s v \<and> v \<noteq> 2 ^ 63 - 1"
  shows "(\<forall>x. Sent OutgoingCredits x \<in> set (trace w') \<longrightarrow> 0 \<le>s x) \<and>
         (nonneg w \<longrightarrow> nonneg w')"
proof -
  have written: "0 \<le>s x" if x: "Sent OutgoingCredits x \<in> set (trace w')" for x
    using run
  proof (cases rule: UnaryInterceptorClient_cases)
    case dropped
    from queueRequest_effect[OF dropped(2)] fresh x show ?thesis by simp
  next
    case (expired added w0 e)
    from gate_effect[OF expired(1,2)] fresh obtain rounds last where
      tr: "trace w' = TrySent PendingOutgoing 1 added # concat rounds @ last" and
      rd: "\<forall>rd \<in> set rounds. emptyRound fl (clientExpiration (st w)) rd" and
      p: "pass fl (st w) (Return e) last"
      by auto
    from x tr have "Sent OutgoingCredits x \<in> set (concat rounds) \<or> Sent OutgoingCredits x \<in> set last"
      by auto
    with rounds_Sent[OF rd] pass_Sent[OF p] show ?thesis by blast
  next
    case (parked added w0)
    from gate_effect[OF parked(1,2)] fresh obtain rounds last where
      tr: "trace w' = TrySent PendingOutgoing 1 added # concat rounds @ last" and
      rd: "\<forall>rd \<in> set rounds. emptyRound fl (clientExpiration (st w)) rd" and
      p: "pass fl (st w) Park last"
      by auto
    from x tr have "Sent OutgoingCredits x \<in> set (concat rounds) \<or> Sent OutgoingCredits x \<in> set last"
      by auto
    with rounds_Sent[OF rd] pass_Sent[OF p] show ?thesis by blast
  next
    case (admitted added w0 wa)
    from gate_effect[OF admitted(1,2)] fresh obtain rounds last where
      tr: "trace wa = TrySent PendingOutgoing 1 added # concat rounds @ last" and
      rd: "\<forall>rd \<in> set rounds. emptyRound fl (clientExpiration (st w)) rd" and
      p: "pass fl (st w) Break last"
      by auto
    from sendRequest_effect[OF admitted(3)] obtain md d y post where
      tr': "trace w' = trace wa @ [Len PendingOutgoing d, Attached md,
              TryReceived PendingOutgoing y, Invoked md] @ post" and
      s: "settlement fl (invoker md) r post"
      by blast
    from x tr tr' consider
      "Sent OutgoingCredits x \<in> set (concat rounds)" | "Sent OutgoingCredits x \<in> set last" |
      "Sent OutgoingCredits x \<in> set post"
      by auto
    then show ?thesis
    proof cases
      case 1
      with rounds_Sent[OF rd] show ?thesis by blast
    next
      case 2
      with pass_Sent[OF p] show ?thesis by blast
    next
      case 3
      from settlement_Sent[OF s 3] show ?thesis
      proof
        assume "1 \<le>s x"
        then show ?thesis by (rule one_nonneg)
      next
        assume "\<exists>cr. TryReceived OutgoingCredits (Some cr) \<in> set post \<and> x = cr + 1"
        then obtain cr where cr: "TryReceived OutgoingCredits (Some cr) \<in> set post" "x = cr + 1"
          by blast
        with tr' have "TryReceived OutgoingCredits (Some cr) \<in> set (trace w')" by simp
        with fail have "0 \<le>s cr" "cr \<noteq> 2 ^ 63 - 1" by simp_all
        with cr(2) show ?thesis by (simp add: inc_nonneg)
      qed
    qed
  qed
  have kept: "nonneg w'" if n: "nonneg w"
    using run
  proof (cases rule: UnaryInterceptorClient_cases)
    case dropped
    from queueRequest_nonneg[OF dropped(2) n] show ?thesis .
  next
    case (expired added w0 e)
    from waitForCredit_nonneg[OF expired(2) queueRequest_nonneg[OF expired(1) n]] show ?thesis .
  next
    case (parked added w0)
    from waitForCredit_nonneg[OF parked(2) queueRequest_nonneg[OF parked(1) n]] show ?thesis .
  next
    case (admitted added w0 wa)
    from waitForCredit_nonneg[OF admitted(2) queueRequest_nonneg[OF admitted(1) n]]
    have "nonneg wa" .
    from sendRequest_nonneg[OF admitted(3) this] fail show ?thesis by simp
  qed
  from written kept show ?thesis by blast
qed

text \<open>
  The theorem at a client with one credit whose transport call fails: the credit taken
  by the admission is given back, and the counter is non-negative at the end.
\<close>

theorem credits_written_nonnegative_witness:
  "trace (snd (UnaryInterceptorClient all_on fails [] (waiting [1] [] 0 []))) =
     [TrySent PendingOutgoing 1 True,
      Received NoCreditBlocker 1, Since 0, Received OutgoingCredits 1, Sent OutgoingCredits 0,
      Len PendingOutgoing 1, Attached [(''demand'', ''1''), (''id'', ''c1'')],
      TryReceived PendingOutgoing (Some 1), Invoked [(''demand'', ''1''), (''id'', ''c1'')],
      TryReceived OutgoingCredits (Some 0), Sent OutgoingCredits 1,
      TrySent NoCreditBlocker 1 True] \<and>
   0 \<le>s (0 :: int64) \<and> 0 \<le>s (1 :: int64) \<and>
   nonneg (waiting [1] [] 0 []) \<and>
   nonneg (snd (UnaryInterceptorClient all_on fails [] (waiting [1] [] 0 [])))"
proof -
  let ?w = "waiting [1] [] 0 []"
  let ?run = "UnaryInterceptorClient all_on fails [] ?w"
  have run: "?run = (fst ?run, snd ?run)" by simp
  have fresh: "trace ?w = []" by (simp add: waiting_def)
  have tr: "trace (snd ?run) =
     [TrySent PendingOutgoing 1 True,
      Received NoCreditBlocker 1, Since 0, Received OutgoingCredits 1, Sent OutgoingCredits 0,
      Len PendingOutgoing 1, Attached [(''demand'', ''1''), (''id'', ''c1'')],
      TryReceived PendingOutgoing (Some 1), Invoked [(''demand'', ''1''), (''id'', ''c1'')],
      TryReceived OutgoingCredits (Some 0), Sent OutgoingCredits 1,
      TrySent NoCreditBlocker 1 True]"
    by (simp add: run_defs)
  have fail: "\<forall>v. TryReceived OutgoingCredits (Some v) \<in> set (trace (snd ?run)) \<longrightarrow>
      0 \<le>s v \<and> v \<noteq> 2 ^ 63 - 1"
    unfolding tr by (auto simp: word_sle_eq)
  have n: "nonneg ?w"
    by (simp add: nonneg_def waiting_def client_def word_sle_eq)
  have s0: "Sent OutgoingCredits 0 \<in> set (trace (snd ?run))"
    and s1: "Sent OutgoingCredits 1 \<in> set (trace (snd ?run))"
    unfolding tr by simp_all
  from credits_written_nonnegative[OF run fresh fail] n s0 s1
  have "0 \<le>s (0 :: int64)" "0 \<le>s (1 :: int64)" "nonneg (snd ?run)" by blast+
  with tr n show ?thesis by blast
qed

text \<open>
  Without the bound the statement fails at \<open>overflowing\<close>.  A reply whose grant is
  9223372036854775807 or more makes the interceptor write 9223372036854775807 (an
  out-of-range number is clamped by \<^verbatim>\<open>ParseInt\<close>, whose error is dropped).  The call
  reads the balances 1 and 9223372036854775807, both non-negative, and on the
  \<^verbatim>\<open>creditsOnFail\<close> path writes \<^verbatim>\<open>credit + 1\<close>, which as an \<^verbatim>\<open>int64\<close> is
  -9223372036854775808; that is the value the counter holds at the end.
\<close>

theorem credits_written_negative:
  "trace (snd (UnaryInterceptorClient all_on fails [] overflowing)) =
     [TrySent PendingOutgoing 1 True, Received NoCreditBlocker 1, Since 0,
      Received OutgoingCredits 1, Sent OutgoingCredits 0, Len PendingOutgoing 1,
      Attached [(''demand'', ''1''), (''id'', ''c1'')], TryReceived PendingOutgoing (Some 1),
      Invoked [(''demand'', ''1''), (''id'', ''c1'')],
      TryReceived OutgoingCredits (Some 9223372036854775807),
      Sent OutgoingCredits (9223372036854775807 + 1),
      TrySent NoCreditBlocker 1 True] \<and>
   max64 (ParseInt ''9223372036854775807'') 1 = 9223372036854775807 \<and>
   max64 (ParseInt ''99999999999999999999'') 1 = 9223372036854775807 \<and>
   0 \<le>s (1 :: int64) \<and> 0 \<le>s (9223372036854775807 :: int64) \<and>
   sint (9223372036854775807 + 1 :: int64) = - 9223372036854775808 \<and>
   \<not> 0 \<le>s (9223372036854775807 + 1 :: int64) \<and>
   buf (outgoingCredits (st (snd (UnaryInterceptorClient all_on fails [] overflowing)))) =
     [9223372036854775807 + 1]"
  by (simp add: run_defs)

subsection \<open>C3: a full queue\<close>

text \<open>
  C3, as the code has it.  When \<^verbatim>\<open>useClientQueueLength\<close> is on and \<^verbatim>\<open>pendingOutgoing\<close> is
  full at entry, the interceptor returns a \<^verbatim>\<open>ResourceExhausted\<close> status at once: its only
  operation is the failed enqueue, so the transport is not invoked and the call changes
  no channel of the struct (what changes is the other goroutines' doing; with none
  scheduled the struct, \<^verbatim>\<open>outgoingCredits\<close> included, is as it was).
\<close>

theorem queue_full_rejected:
  assumes "useClientQueueLength fl"
    and "cap (pendingOutgoing (st w)) \<le> length (buf (pendingOutgoing (st w)))"
  shows "\<exists>w'. UnaryInterceptorClient fl invoker c w =
            (Returned (Some (Status ResourceExhausted
               (''Client queue too long, request dropped at client '' @ id_string (st w)))), w') \<and>
          trace w' = trace w @ [TrySent PendingOutgoing 1 False] \<and>
          st w' = st (interfere w) \<and>
          (sched w = [] \<longrightarrow> st w' = st w)"
proof -
  define w' where "w' = step (TrySent PendingOutgoing 1 False) (\<lambda>b. b) w"
  from assms(2) have q: "queueRequest w = (False, w')"
    by (simp add: queueRequest_def trySend_def chSend_def w'_def)
  have c: "id_string (st w') = id_string (st w)"
    using cfg_step[of "\<lambda>b. b" w "TrySent PendingOutgoing 1 False"] by (simp add: w'_def cfg_def)
  have "UnaryInterceptorClient fl invoker c w =
          (Returned (Some (Status ResourceExhausted
             (''Client queue too long, request dropped at client '' @ id_string (st w)))), w')"
    using q assms(1) c by (simp add: UnaryInterceptorClient_def queueTooLong_def)
  moreover have "trace w' = trace w @ [TrySent PendingOutgoing 1 False]"
    by (simp add: w'_def)
  moreover have "st w' = st (interfere w)"
    by (simp add: w'_def step_def interfere_trace_upd)
  moreover have "sched w = [] \<longrightarrow> st w' = st w"
    by (simp add: w'_def step_def interfere_def)
  ultimately show ?thesis by blast
qed

text \<open>The theorem at a client whose queue of capacity 2 holds two requests.\<close>

theorem queue_full_rejected_witness:
  "\<exists>w'. UnaryInterceptorClient all_on (grants ''7'') [] (waiting [1] [1, 1] 0 []) =
            (Returned (Some (Status ResourceExhausted
               ''Client queue too long, request dropped at client c1'')), w') \<and>
         trace w' = [TrySent PendingOutgoing 1 False] \<and>
         outgoingCredits (st w') = \<lparr>buf = [1], cap = 1\<rparr>"
  using queue_full_rejected[of all_on "waiting [1] [1, 1] 0 []" "grants ''7''" "[]"]
  by (auto simp: all_on_def waiting_def client_def)

text \<open>
  With \<^verbatim>\<open>useClientQueueLength\<close> off the same full queue does not stop the call: it is
  admitted, invokes the transport and returns \<^verbatim>\<open>nil\<close>.
\<close>

theorem queue_full_not_rejected:
  "cap (pendingOutgoing (st (waiting [1] [1, 1] 0 []))) \<le>
     length (buf (pendingOutgoing (st (waiting [1] [1, 1] 0 [])))) \<and>
   fst (UnaryInterceptorClient no_queue_limit (grants ''7'') [] (waiting [1] [1, 1] 0 [])) =
     Returned None \<and>
   trace (snd (UnaryInterceptorClient no_queue_limit (grants ''7'') [] (waiting [1] [1, 1] 0 []))) =
     [TrySent PendingOutgoing 1 False, Received NoCreditBlocker 1, Since 0,
      Received OutgoingCredits 1, Sent OutgoingCredits 0,
      Len PendingOutgoing 2, Attached [(''demand'', ''2''), (''id'', ''c1'')],
      TryReceived PendingOutgoing (Some 1), Invoked [(''demand'', ''2''), (''id'', ''c1'')],
      Received OutgoingCredits 0, Sent OutgoingCredits 7, TrySent NoCreditBlocker 1 True]"
  by (simp add: run_defs)

subsection \<open>C4: a request that waited too long\<close>




subsection \<open>C5: the demand sent with a request\<close>

text \<open>
  C5, as the code has it.  When a call reaches the transport, the metadata it sends is
  the caller's context followed by \<^verbatim>\<open>demand\<close> and \<^verbatim>\<open>id\<close>.  The demand is the decimal form
  (its digits read back as \<open>d\<close>) of the length \<open>d\<close> of \<^verbatim>\<open>pendingOutgoing\<close> in the world
  \<open>wa\<close> that the wait loop left when it admitted the call.  The sample, the attaching of
  the metadata, the call's dequeue and the transport call come in this order, after the
  admission.  This holds whatever the other goroutines do.

  The request itself is counted in the demand when it has an entry in the queue.  When
  its enqueue succeeded (\<open>added\<close>) and the other goroutines never take the last entry
  out of the queue (\<open>entryStays\<close>), the demand is at least 1 and the dequeue that
  follows takes an entry; when they leave the queue alone (\<open>queueUntouched\<close>), the
  demand is the length of the queue at entry plus one.  For a request whose enqueue
  failed nothing is stated about whom the demand counts.
\<close>

theorem demand_counts_pending_request:
  assumes run: "UnaryInterceptorClient fl invoker c w = (r, w')"
    and fresh: "trace w = []"
    and inv: "Invoked md \<in> set (trace w')"
  shows "\<exists>added w0 wa d x post.
           queueRequest w = (added, w0) \<and> waitForCredit fl w0 = (Break, wa) \<and>
           d = length (buf (pendingOutgoing (st wa))) \<and>
           md = c @ [(''demand'', Itoa (int d)), (''id'', id_string (st w))] \<and>
           parseDigits (Itoa (int d)) 0 = Some d \<and>
           trace w' = trace wa @ [Len PendingOutgoing d, Attached md,
                                  TryReceived PendingOutgoing x, Invoked md] @ post \<and>
           (\<exists>pre adm v. trace wa = pre @ adm \<and> admission fl (clientExpiration (st w)) v adm) \<and>
           (\<forall>m. Invoked m \<notin> set (trace wa) \<and> Invoked m \<notin> set post) \<and>
           (added \<and> entryStays w \<longrightarrow> 0 < d \<and> x \<noteq> None) \<and>
           (added \<and> queueUntouched w \<longrightarrow>
              d = length (buf (pendingOutgoing (st w))) + 1 \<and> x \<noteq> None)"
  using run
proof (cases rule: UnaryInterceptorClient_cases)
  case dropped
  from queueRequest_effect[OF dropped(2)] fresh inv show ?thesis by simp
next
  case (expired added w0 e)
  from gate_effect[OF expired(1,2)] fresh obtain rounds last where
    tr: "trace w' = TrySent PendingOutgoing 1 added # concat rounds @ last" and
    rd: "\<forall>rd \<in> set rounds. emptyRound fl (clientExpiration (st w)) rd" and
    p: "pass fl (st w) (Return e) last"
    by auto
  from inv tr rounds_Invoked[OF rd] pass_Invoked[OF p] show ?thesis by auto
next
  case (parked added w0)
  from gate_effect[OF parked(1,2)] fresh obtain rounds last where
    tr: "trace w' = TrySent PendingOutgoing 1 added # concat rounds @ last" and
    rd: "\<forall>rd \<in> set rounds. emptyRound fl (clientExpiration (st w)) rd" and
    p: "pass fl (st w) Park last"
    by auto
  from inv tr rounds_Invoked[OF rd] pass_Invoked[OF p] show ?thesis by auto
next
  case (admitted added w0 wa)
  from gate_effect[OF admitted(1,2)] fresh obtain rounds adm v where
    ca: "cfg (st wa) = cfg (st w)" and
    tr: "trace wa = TrySent PendingOutgoing 1 added # concat rounds @ adm" and
    rd: "\<forall>rd \<in> set rounds. emptyRound fl (clientExpiration (st w)) rd" and
    a: "admission fl (clientExpiration (st w)) v adm"
    by (auto simp: pass_def)
  define d where "d = length (buf (pendingOutgoing (st wa)))"
  from ca have ida: "id_string (st wa) = id_string (st w)" by (simp add: cfg_def)
  from sendRequest_effect[OF admitted(3)] obtain md' x post wq where
    md0: "md' = c @ [(''demand'', Itoa (int (length (buf (pendingOutgoing (st wa)))))),
                     (''id'', id_string (st wa))]" and
    tr0: "trace w' = trace wa @ [Len PendingOutgoing (length (buf (pendingOutgoing (st wa)))),
            Attached md', TryReceived PendingOutgoing x, Invoked md'] @ post" and
    s: "settlement fl (invoker md') r post" and
    qq: "queueLeft wa wq" and
    x: "x = None \<longleftrightarrow> buf (pendingOutgoing (st wq)) = []"
    by (elim exE conjE)
  from md0 ida have md': "md' = c @ [(''demand'', Itoa (int d)), (''id'', id_string (st w))]"
    by (simp add: d_def)
  from tr0 have tr': "trace w' = trace wa @ [Len PendingOutgoing d, Attached md',
            TryReceived PendingOutgoing x, Invoked md'] @ post"
    by (simp add: d_def)
  have noinv: "\<forall>m. Invoked m \<notin> set (trace wa) \<and> Invoked m \<notin> set post"
    using tr rounds_Invoked[OF rd] admission_Invoked[OF a] settlement_Invoked[OF s] by auto
  with inv tr' have "md' = md" by auto
  from queueLeft_waitForCredit[OF admitted(2)] have ql: "queueLeft w0 wa" by simp
  have kept: "0 < d \<and> x \<noteq> None" if "added" "entryStays w"
  proof -
    from admitted(1) that(1) have "queueRequest w = (True, w0)" by simp
    from queueRequest_entry[OF this that(2)] have "entryKept w0" .
    from queueLeft_entryKept[OF ql this] have ka: "entryKept wa" .
    from queueLeft_entryKept[OF qq ka] have "buf (pendingOutgoing (st wq)) \<noteq> []"
      by (simp add: entryKept_def)
    with x ka show ?thesis by (simp add: entryKept_def d_def)
  qed
  have alone: "d = length (buf (pendingOutgoing (st w))) + 1 \<and> x \<noteq> None"
    if "added" "queueUntouched w"
  proof -
    from queueRequest_untouched[OF admitted(1) that(2)] that(1)
    have u0: "queueUntouched w0"
      and b0: "buf (pendingOutgoing (st w0)) = buf (pendingOutgoing (st w)) @ [1]"
      by simp_all
    from queueLeft_untouched[OF ql u0]
    have ua: "queueUntouched wa" and ba: "pendingOutgoing (st wa) = pendingOutgoing (st w0)"
      by simp_all
    from queueLeft_untouched[OF qq ua]
    have "pendingOutgoing (st wq) = pendingOutgoing (st wa)" by simp
    with x ba b0 show ?thesis by (simp add: d_def)
  qed
  have "\<exists>pre adm v. trace wa = pre @ adm \<and> admission fl (clientExpiration (st w)) v adm"
    using tr a by (intro exI[of _ "TrySent PendingOutgoing 1 added # concat rounds"] exI[of _ adm] exI[of _ v]) simp
  then have "queueRequest w = (added, w0) \<and> waitForCredit fl w0 = (Break, wa) \<and>
           d = length (buf (pendingOutgoing (st wa))) \<and>
           md = c @ [(''demand'', Itoa (int d)), (''id'', id_string (st w))] \<and>
           parseDigits (Itoa (int d)) 0 = Some d \<and>
           trace w' = trace wa @ [Len PendingOutgoing d, Attached md,
                                  TryReceived PendingOutgoing x, Invoked md] @ post \<and>
           (\<exists>pre adm v. trace wa = pre @ adm \<and> admission fl (clientExpiration (st w)) v adm) \<and>
           (\<forall>m. Invoked m \<notin> set (trace wa) \<and> Invoked m \<notin> set post) \<and>
           (added \<and> entryStays w \<longrightarrow> 0 < d \<and> x \<noteq> None) \<and>
           (added \<and> queueUntouched w \<longrightarrow>
              d = length (buf (pendingOutgoing (st w))) + 1 \<and> x \<noteq> None)"
    using admitted(1,2) md' tr' \<open>md' = md\<close> noinv kept alone d_def parseDigits_Itoa[of d]
    by (intro conjI impI) (simp_all del: append_Cons append_Nil)
  then show ?thesis by blast
qed

text \<open>
  The theorem at \<open>granted_late\<close>, where one other request stays pending and the demand
  sent is 2, and at \<open>overtaken_granted\<close>, where that request is sent while the call
  waits and the demand sent is 1, the call's own entry.
\<close>

theorem demand_counts_pending_request_witness:
  "trace (snd (UnaryInterceptorClient all_on (grants ''7'') [] granted_late)) =
     [TrySent PendingOutgoing 1 True,
      Received NoCreditBlocker 1, Since 0, Received OutgoingCredits 0, Sent OutgoingCredits 0,
      Received NoCreditBlocker 1, Since 0, Received OutgoingCredits 3, Sent OutgoingCredits 2,
      TrySent NoCreditBlocker 1 True,
      Len PendingOutgoing 2, Attached [(''demand'', ''2''), (''id'', ''c1'')],
      TryReceived PendingOutgoing (Some 1), Invoked [(''demand'', ''2''), (''id'', ''c1'')],
      Received OutgoingCredits 2, Sent OutgoingCredits 7, TrySent NoCreditBlocker 1 False] \<and>
   queueUntouched granted_late \<and> entryStays granted_late \<and>
   length (buf (pendingOutgoing (st granted_late))) = 1 \<and>
   (\<exists>w0 wa d x post.
     queueRequest granted_late = (True, w0) \<and>
     waitForCredit all_on w0 = (Break, wa) \<and>
     d = length (buf (pendingOutgoing (st wa))) \<and>
     d = 2 \<and> Itoa (int d) = ''2'' \<and> parseDigits ''2'' 0 = Some d \<and>
     trace (snd (UnaryInterceptorClient all_on (grants ''7'') [] granted_late)) =
       trace wa @ [Len PendingOutgoing d, Attached [(''demand'', ''2''), (''id'', ''c1'')],
                   TryReceived PendingOutgoing x,
                   Invoked [(''demand'', ''2''), (''id'', ''c1'')]] @ post \<and>
     (\<exists>pre adm v. trace wa = pre @ adm \<and>
        admission all_on (clientExpiration (st granted_late)) v adm) \<and>
     x \<noteq> None) \<and>
   trace (snd (UnaryInterceptorClient all_on (grants ''7'') [] overtaken_granted)) =
     [TrySent PendingOutgoing 1 True,
      Received NoCreditBlocker 1, Since 0, Received OutgoingCredits 0, Sent OutgoingCredits 0,
      Received NoCreditBlocker 1, Since 0, Received OutgoingCredits 3, Sent OutgoingCredits 2,
      TrySent NoCreditBlocker 1 True,
      Len PendingOutgoing 1, Attached [(''demand'', ''1''), (''id'', ''c1'')],
      TryReceived PendingOutgoing (Some 1), Invoked [(''demand'', ''1''), (''id'', ''c1'')],
      Received OutgoingCredits 2, Sent OutgoingCredits 7, TrySent NoCreditBlocker 1 False] \<and>
   entryStays overtaken_granted \<and>
   (\<exists>w0 wa d x post.
     queueRequest overtaken_granted = (True, w0) \<and>
     waitForCredit all_on w0 = (Break, wa) \<and>
     d = length (buf (pendingOutgoing (st wa))) \<and> 0 < d \<and>
     trace (snd (UnaryInterceptorClient all_on (grants ''7'') [] overtaken_granted)) =
       trace wa @ [Len PendingOutgoing d, Attached [(''demand'', ''1''), (''id'', ''c1'')],
                   TryReceived PendingOutgoing x,
                   Invoked [(''demand'', ''1''), (''id'', ''c1'')]] @ post \<and>
     x \<noteq> None)"
proof -
  let ?w = "granted_late"
  let ?run = "UnaryInterceptorClient all_on (grants ''7'') [] ?w"
  have tr: "trace (snd ?run) =
     [TrySent PendingOutgoing 1 True,
      Received NoCreditBlocker 1, Since 0, Received OutgoingCredits 0, Sent OutgoingCredits 0,
      Received NoCreditBlocker 1, Since 0, Received OutgoingCredits 3, Sent OutgoingCredits 2,
      TrySent NoCreditBlocker 1 True,
      Len PendingOutgoing 2, Attached [(''demand'', ''2''), (''id'', ''c1'')],
      TryReceived PendingOutgoing (Some 1), Invoked [(''demand'', ''2''), (''id'', ''c1'')],
      Received OutgoingCredits 2, Sent OutgoingCredits 7, TrySent NoCreditBlocker 1 False]"
    by (simp add: run_defs)
  have q: "queueUntouched ?w"
    by (simp add: queueUntouched_def granted_late_def waiting_def)
  have k: "entryStays ?w"
    by (simp add: entryStays_def granted_late_def waiting_def client_def)
  have c: "length (buf (pendingOutgoing (st ?w))) = 1" "id_string (st ?w) = ''c1''"
    by (simp_all add: granted_late_def waiting_def client_def)
  have ad: "fst (queueRequest ?w)"
    by (simp add: queueRequest_def trySend_def chSend_def granted_late_def waiting_def client_def)
  have "?run = (fst ?run, snd ?run)" by simp
  moreover have "trace ?w = []" by (simp add: granted_late_def waiting_def)
  moreover have "Invoked [(''demand'', ''2''), (''id'', ''c1'')] \<in> set (trace (snd ?run))"
    unfolding tr by simp
  ultimately have "\<exists>added w0 wa d x post.
     queueRequest ?w = (added, w0) \<and>
     waitForCredit all_on w0 = (Break, wa) \<and>
     d = length (buf (pendingOutgoing (st wa))) \<and>
     [(''demand'', ''2''), (''id'', ''c1'')] =
       [] @ [(''demand'', Itoa (int d)), (''id'', id_string (st ?w))] \<and>
     parseDigits (Itoa (int d)) 0 = Some d \<and>
     trace (snd ?run) =
       trace wa @ [Len PendingOutgoing d, Attached [(''demand'', ''2''), (''id'', ''c1'')],
                   TryReceived PendingOutgoing x,
                   Invoked [(''demand'', ''2''), (''id'', ''c1'')]] @ post \<and>
     (\<exists>pre adm v. trace wa = pre @ adm \<and>
        admission all_on (clientExpiration (st ?w)) v adm) \<and>
     (\<forall>m. Invoked m \<notin> set (trace wa) \<and> Invoked m \<notin> set post) \<and>
     (added \<and> entryStays ?w \<longrightarrow> 0 < d \<and> x \<noteq> None) \<and>
     (added \<and> queueUntouched ?w \<longrightarrow>
        d = length (buf (pendingOutgoing (st ?w))) + 1 \<and> x \<noteq> None)"
    by (rule demand_counts_pending_request)
  then obtain added w0 wa d x post pre adm v where
    h1: "queueRequest ?w = (added, w0)" and
    h2: "waitForCredit all_on w0 = (Break, wa)" and
    h3: "d = length (buf (pendingOutgoing (st wa)))" and
    h4: "[(''demand'', ''2''), (''id'', ''c1'')] =
       [] @ [(''demand'', Itoa (int d)), (''id'', id_string (st ?w))]" and
    h5: "parseDigits (Itoa (int d)) 0 = Some d" and
    h6: "trace (snd ?run) =
       trace wa @ [Len PendingOutgoing d, Attached [(''demand'', ''2''), (''id'', ''c1'')],
                   TryReceived PendingOutgoing x,
                   Invoked [(''demand'', ''2''), (''id'', ''c1'')]] @ post" and
    h7: "trace wa = pre @ adm" and
    h7b: "admission all_on (clientExpiration (st ?w)) v adm" and
    h9: "added \<and> queueUntouched ?w \<longrightarrow>
        d = length (buf (pendingOutgoing (st ?w))) + 1 \<and> x \<noteq> None"
    by (elim exE conjE)
  from h1 ad have added: "added" by simp
  from h9 added q c have d: "d = 2" "x \<noteq> None" by simp_all
  from h4 have it: "Itoa (int d) = ''2''" by simp
  from h7 h7b have h7': "\<exists>pre adm v. trace wa = pre @ adm \<and>
        admission all_on (clientExpiration (st ?w)) v adm"
    by blast
  from h1 h2 h3 h5 h6 h7' added d it have first: "\<exists>w0 wa d x post.
     queueRequest ?w = (True, w0) \<and>
     waitForCredit all_on w0 = (Break, wa) \<and>
     d = length (buf (pendingOutgoing (st wa))) \<and>
     d = 2 \<and> Itoa (int d) = ''2'' \<and> parseDigits ''2'' 0 = Some d \<and>
     trace (snd ?run) =
       trace wa @ [Len PendingOutgoing d, Attached [(''demand'', ''2''), (''id'', ''c1'')],
                   TryReceived PendingOutgoing x,
                   Invoked [(''demand'', ''2''), (''id'', ''c1'')]] @ post \<and>
     (\<exists>pre adm v. trace wa = pre @ adm \<and>
        admission all_on (clientExpiration (st ?w)) v adm) \<and>
     x \<noteq> None"
    by (intro exI[of _ w0] exI[of _ wa] exI[of _ d] exI[of _ x] exI[of _ post]) simp
  let ?v = "overtaken_granted"
  let ?over = "UnaryInterceptorClient all_on (grants ''7'') [] ?v"
  have tr': "trace (snd ?over) =
     [TrySent PendingOutgoing 1 True,
      Received NoCreditBlocker 1, Since 0, Received OutgoingCredits 0, Sent OutgoingCredits 0,
      Received NoCreditBlocker 1, Since 0, Received OutgoingCredits 3, Sent OutgoingCredits 2,
      TrySent NoCreditBlocker 1 True,
      Len PendingOutgoing 1, Attached [(''demand'', ''1''), (''id'', ''c1'')],
      TryReceived PendingOutgoing (Some 1), Invoked [(''demand'', ''1''), (''id'', ''c1'')],
      Received OutgoingCredits 2, Sent OutgoingCredits 7, TrySent NoCreditBlocker 1 False]"
    by (simp add: run_defs)
  have k': "entryStays ?v"
    by (simp add: entryStays_def overtaken_granted_def waiting_def client_def)
  have ad': "fst (queueRequest ?v)"
    by (simp add: queueRequest_def trySend_def chSend_def overtaken_granted_def waiting_def client_def)
  have "?over = (fst ?over, snd ?over)" by simp
  moreover have "trace ?v = []" by (simp add: overtaken_granted_def waiting_def)
  moreover have "Invoked [(''demand'', ''1''), (''id'', ''c1'')] \<in> set (trace (snd ?over))"
    unfolding tr' by simp
  ultimately have "\<exists>added w0 wa d x post.
     queueRequest ?v = (added, w0) \<and>
     waitForCredit all_on w0 = (Break, wa) \<and>
     d = length (buf (pendingOutgoing (st wa))) \<and>
     [(''demand'', ''1''), (''id'', ''c1'')] =
       [] @ [(''demand'', Itoa (int d)), (''id'', id_string (st ?v))] \<and>
     parseDigits (Itoa (int d)) 0 = Some d \<and>
     trace (snd ?over) =
       trace wa @ [Len PendingOutgoing d, Attached [(''demand'', ''1''), (''id'', ''c1'')],
                   TryReceived PendingOutgoing x,
                   Invoked [(''demand'', ''1''), (''id'', ''c1'')]] @ post \<and>
     (\<exists>pre adm v. trace wa = pre @ adm \<and>
        admission all_on (clientExpiration (st ?v)) v adm) \<and>
     (\<forall>m. Invoked m \<notin> set (trace wa) \<and> Invoked m \<notin> set post) \<and>
     (added \<and> entryStays ?v \<longrightarrow> 0 < d \<and> x \<noteq> None) \<and>
     (added \<and> queueUntouched ?v \<longrightarrow>
        d = length (buf (pendingOutgoing (st ?v))) + 1 \<and> x \<noteq> None)"
    by (rule demand_counts_pending_request)
  then obtain added' w0' wa' d' x' post' where
    g1: "queueRequest ?v = (added', w0')" and
    g2: "waitForCredit all_on w0' = (Break, wa')" and
    g3: "d' = length (buf (pendingOutgoing (st wa')))" and
    g6: "trace (snd ?over) =
       trace wa' @ [Len PendingOutgoing d', Attached [(''demand'', ''1''), (''id'', ''c1'')],
                   TryReceived PendingOutgoing x',
                   Invoked [(''demand'', ''1''), (''id'', ''c1'')]] @ post'" and
    g8: "added' \<and> entryStays ?v \<longrightarrow> 0 < d' \<and> x' \<noteq> None"
    by (elim exE conjE)
  from g1 ad' have added': "added'" by simp
  from g8 added' k' have "0 < d'" "x' \<noteq> None" by simp_all
  with g1 g2 g3 g6 added' have second: "\<exists>w0 wa d x post.
     queueRequest ?v = (True, w0) \<and>
     waitForCredit all_on w0 = (Break, wa) \<and>
     d = length (buf (pendingOutgoing (st wa))) \<and> 0 < d \<and>
     trace (snd ?over) =
       trace wa @ [Len PendingOutgoing d, Attached [(''demand'', ''1''), (''id'', ''c1'')],
                   TryReceived PendingOutgoing x,
                   Invoked [(''demand'', ''1''), (''id'', ''c1'')]] @ post \<and>
     x \<noteq> None"
    by (intro exI[of _ w0'] exI[of _ wa'] exI[of _ d'] exI[of _ x'] exI[of _ post']) simp
  from tr q k c(1) first tr' k' second show ?thesis by blast
qed

text \<open>
  For a request that has no entry the claim fails.  With \<^verbatim>\<open>useClientQueueLength\<close> off, a
  call that finds the queue full (two other requests are pending) is admitted without
  an entry of its own.  The demand it sends is 2: the two other requests, the current
  one not counted.  Its dequeue then takes the entry of one of them.
\<close>

theorem demand_omits_request_without_entry:
  "buf (pendingOutgoing (st (waiting [2] [1, 1] 0 []))) = [1, 1] \<and>
   fst (queueRequest (waiting [2] [1, 1] 0 [])) = False \<and>
   fst (UnaryInterceptorClient no_queue_limit (grants ''7'') [] (waiting [2] [1, 1] 0 [])) =
     Returned None \<and>
   trace (snd (UnaryInterceptorClient no_queue_limit (grants ''7'') [] (waiting [2] [1, 1] 0 []))) =
     [TrySent PendingOutgoing 1 False, Received NoCreditBlocker 1, Since 0,
      Received OutgoingCredits 2, Sent OutgoingCredits 1, TrySent NoCreditBlocker 1 True,
      Len PendingOutgoing 2, Attached [(''demand'', ''2''), (''id'', ''c1'')],
      TryReceived PendingOutgoing (Some 1), Invoked [(''demand'', ''2''), (''id'', ''c1'')],
      Received OutgoingCredits 1, Sent OutgoingCredits 7, TrySent NoCreditBlocker 1 False] \<and>
   buf (pendingOutgoing (st (snd (UnaryInterceptorClient no_queue_limit (grants ''7'') []
      (waiting [2] [1, 1] 0 []))))) = [1]"
  by (simp add: run_defs)

end
